theory Spec2Isabelle
  imports Complex_Main "HOL-Library.Word"
begin

section \<open>JavaScript values used by the wizard\<close>

text \<open>
  A JavaScript string is a sequence of 16-bit code units; \<open>length\<close> counts code units,
  as \<^verbatim>\<open>.length\<close> does. \<open>str\<close> embeds a literal of the source.
\<close>

type_synonym jsstring = "16 word list"

definition str :: "string \<Rightarrow> jsstring" where
  "str s = map of_char s"

text \<open>
  \<^verbatim>\<open>String.prototype.trim\<close> removes leading and trailing WhiteSpace and LineTerminator
  code units (ECMAScript: TAB, LF, VT, FF, CR, SP, NBSP, U+1680, U+2000..U+200A, U+2028,
  U+2029, U+202F, U+205F, U+3000, U+FEFF).
\<close>

definition isWhiteSpace :: "16 word \<Rightarrow> bool" where
  "isWhiteSpace c =
     (c = 0x09 \<or> c = 0x0A \<or> c = 0x0B \<or> c = 0x0C \<or> c = 0x0D \<or> c = 0x20 \<or> c = 0xA0
      \<or> c = 0x1680 \<or> (0x2000 \<le> c \<and> c \<le> 0x200A) \<or> c = 0x2028 \<or> c = 0x2029
      \<or> c = 0x202F \<or> c = 0x205F \<or> c = 0x3000 \<or> c = 0xFEFF)"

definition trim :: "jsstring \<Rightarrow> jsstring" where
  "trim s = rev (dropWhile isWhiteSpace (rev (dropWhile isWhiteSpace s)))"

text \<open>
  A value of unknown type (\<^verbatim>\<open>any\<close>, \<^verbatim>\<open>unknown\<close>), as JSON delivers it. A number is kept as
  the text that \<^verbatim>\<open>String\<close> gives it: the wizard never computes with such a number, it
  only tests it for truthiness, renders it or converts it to a string.
\<close>

datatype json =
    JNull
  | JBool bool
  | JNum jsstring
  | JStr jsstring
  | JArr "json list"
  | JObj "(jsstring \<times> json) list"

text \<open>Truthiness: \<^verbatim>\<open>null\<close>, \<^verbatim>\<open>false\<close>, \<^verbatim>\<open>0\<close>, \<^verbatim>\<open>NaN\<close> and the empty string are falsy.\<close>

fun js_truthy :: "json \<Rightarrow> bool" where
  "js_truthy JNull = False"
| "js_truthy (JBool b) = b"
| "js_truthy (JNum t) = (t \<noteq> str ''0'' \<and> t \<noteq> str ''NaN'')"
| "js_truthy (JStr s) = (s \<noteq> [])"
| "js_truthy (JArr xs) = True"
| "js_truthy (JObj kvs) = True"

text \<open>\<^verbatim>\<open>a ?? b\<close> on a typed optional value: \<open>b\<close> only when \<open>a\<close> is null or undefined.\<close>

definition nullish :: "'a option \<Rightarrow> 'a \<Rightarrow> 'a" where
  "nullish a b = (case a of None \<Rightarrow> b | Some v \<Rightarrow> v)"

text \<open>
  \<^verbatim>\<open>a ?? b\<close> and \<^verbatim>\<open>a || b\<close> on a value of unknown type that may be missing (\<open>None\<close>:
  undefined).
\<close>

definition coalesce :: "json option \<Rightarrow> json \<Rightarrow> json" where
  "coalesce a b = (case a of None \<Rightarrow> b | Some JNull \<Rightarrow> b | Some v \<Rightarrow> v)"

definition or_else :: "json option \<Rightarrow> json \<Rightarrow> json" where
  "or_else a b = (case a of None \<Rightarrow> b | Some v \<Rightarrow> (if js_truthy v then v else b))"

text \<open>
  \<^verbatim>\<open>String(v)\<close>: an array is its elements joined by commas, null elements giving the
  empty string; a plain object is \<^verbatim>\<open>[object Object]\<close>.
\<close>

fun join_comma :: "jsstring list \<Rightarrow> jsstring" where
  "join_comma [] = []"
| "join_comma [x] = x"
| "join_comma (x # y # ys) = x @ str '','' @ join_comma (y # ys)"

fun js_String :: "json \<Rightarrow> jsstring" where
  "js_String JNull = str ''null''"
| "js_String (JBool b) = (if b then str ''true'' else str ''false'')"
| "js_String (JNum t) = t"
| "js_String (JStr s) = s"
| "js_String (JArr xs) = join_comma (map (\<lambda>v. if v = JNull then [] else js_String v) xs)"
| "js_String (JObj kvs) = str ''[object Object]''"

text \<open>
  What React accepts as a child: strings and numbers become text, booleans and null
  render nothing, an array renders its elements, and a plain object makes the render
  throw (\<^emph>\<open>Objects are not valid as a React child\<close>).
\<close>

fun valid_child :: "json \<Rightarrow> bool" where
  "valid_child (JObj kvs) = False"
| "valid_child (JArr xs) = list_all valid_child xs"
| "valid_child v = True"

section \<open>Payload types (types/index.ts)\<close>

record Agent =
  Agent_id :: int
  Agent_name :: jsstring
  Agent_description :: jsstring
  Agent_purpose :: jsstring
  Agent_model :: jsstring
  Agent_created_at :: jsstring
  Agent_updated_at :: jsstring

record AgentCreate =
  name :: jsstring
  description :: jsstring
  purpose :: jsstring
  model :: jsstring

record Tool =
  Tool_id :: int
  Tool_name :: jsstring
  Tool_description :: jsstring
  Tool_input_schema :: jsstring
  Tool_output_schema :: jsstring

record Policy =
  Policy_id :: int
  Policy_agent_id :: int
  Policy_frequency_limit :: "real option"
  Policy_require_approval_for_all_tool_calls :: bool

record PolicyCreate =
  frequency_limit :: "real option"
  require_approval_for_all_tool_calls :: bool

record AgentDefinitionTool =
  ADTool_id :: int
  ADTool_name :: jsstring
  ADTool_description :: jsstring
  ADTool_input_schema :: json
  ADTool_output_schema :: json

record AgentDefinitionPolicy =
  ADPolicy_allowed_tool_ids :: "int list"
  ADPolicy_frequency_limit :: "real option"
  ADPolicy_require_approval_for_all_tool_calls :: bool

record AgentDefinition =
  AD_agent_id :: int
  AD_name :: jsstring
  AD_description :: jsstring
  AD_purpose :: jsstring
  AD_model :: jsstring
  AD_tools :: "AgentDefinitionTool list"
  AD_policy :: AgentDefinitionPolicy

record AgentQARequest =
  QA_question :: jsstring
  QA_session_id :: "jsstring option"

record AgentQAResponse =
  QAR_question :: jsstring
  QAR_answer :: "jsstring option"
  QAR_session_id :: "jsstring option"

section \<open>Tool selection (ToolsStep)\<close>

text \<open>
  The checkbox of a tool is rendered with \<^verbatim>\<open>checked = selectedToolIds.includes(tool.id)\<close>;
  its \<^verbatim>\<open>onChange\<close> passes the new list to \<^verbatim>\<open>setSelectedToolIds\<close>.
\<close>

definition checked :: "int list \<Rightarrow> int \<Rightarrow> bool" where
  "checked selectedToolIds tool_id = (tool_id \<in> set selectedToolIds)"

definition onChange_tool :: "int list \<Rightarrow> int \<Rightarrow> bool \<Rightarrow> int list" where
  "onChange_tool selectedToolIds tool_id target_checked =
     (if target_checked then selectedToolIds @ [tool_id]
      else filter (\<lambda>i. i \<noteq> tool_id) selectedToolIds)"

section \<open>Metadata validity (AgentBuilder, MetadataStep)\<close>

definition isMetadataValid :: "AgentCreate \<Rightarrow> bool" where
  "isMetadataValid metadataForm =
     (length (trim (name metadataForm)) > 0 \<and>
      length (trim (description metadataForm)) \<ge> 10 \<and>
      length (trim (purpose metadataForm)) \<ge> 5 \<and>
      length (trim (model metadataForm)) > 0)"

text \<open>The button of MetadataStep: \<^verbatim>\<open>disabled={!isValid || loading}\<close>.\<close>

definition metadata_next_disabled :: "bool \<Rightarrow> bool \<Rightarrow> bool" where
  "metadata_next_disabled isValid loading = (\<not> isValid \<or> loading)"

section \<open>The page controller (AgentBuilder)\<close>

text \<open>
  What a \<^verbatim>\<open>catch\<close> clause reads from the value a rejected call throws (\<^verbatim>\<open>err: any\<close>):
  \<open>detail\<close> is \<^verbatim>\<open>err?.response?.data?.detail\<close> and \<open>message\<close> is \<^verbatim>\<open>e?.message\<close>, each of
  any type, \<open>None\<close> when undefined.
\<close>

record failure =
  detail :: "json option"
  message :: "json option"

definition models :: "jsstring list" where
  "models = [str ''gpt-4.1-mini'', str ''gpt-4.1'', str ''gpt-4.1-extended'']"

definition steps :: "(jsstring \<times> jsstring) list" where
  "steps = [(str ''metadata'', str ''Metadata''), (str ''tools'', str ''Tools''),
            (str ''policies'', str ''Policies''), (str ''review'', str ''Review & Export'')]"

text \<open>
  The \<^verbatim>\<open>useState\<close> cells of AgentBuilderPage. \<open>error\<close> is declared a string, but the
  submit handlers store what they read from \<^verbatim>\<open>err: any\<close> unconverted, so the cell holds
  a value of any type.
\<close>

record wizard =
  activeStep :: jsstring
  agent :: "Agent option"
  agentDefinition :: "AgentDefinition option"
  availableTools :: "Tool list"
  selectedToolIds :: "int list"
  policy :: "Policy option"
  error :: json
  loading :: bool
  metadataForm :: AgentCreate
  policyForm :: PolicyCreate

definition initial_wizard :: wizard where
  "initial_wizard =
     \<lparr>activeStep = str ''metadata'', agent = None, agentDefinition = None,
      availableTools = [], selectedToolIds = [], policy = None, error = JStr [],
      loading = False,
      metadataForm = \<lparr>name = [], description = [], purpose = [], model = hd models\<rparr>,
      policyForm = \<lparr>frequency_limit = None, require_approval_for_all_tool_calls = False\<rparr>\<rparr>"

text \<open>The calls of api/client.ts that the wizard issues, with their arguments.\<close>

datatype call =
    CreateAgent AgentCreate
  | GetTools
  | SetAgentTools int "int list"
  | GetAgentTools int
  | SetPolicy int PolicyCreate
  | GetDefinition int
  | AskAgent int AgentQARequest

text \<open>
  Every step component renders \<^verbatim>\<open>{error && <div style={errorStyle}>{error}</div>}\<close>:
  the banner exists when \<open>error\<close> is truthy, with \<open>error\<close> as its child. The render of
  the active step throws when that child is not a valid one; no error boundary is
  mounted, so the page is then unmounted.
\<close>

definition banner :: "wizard \<Rightarrow> json option" where
  "banner w = (if js_truthy (error w) then Some (error w) else None)"

definition render_throws :: "wizard \<Rightarrow> bool" where
  "render_throws w = (activeStep w \<in> set (map fst steps) \<and> \<not> valid_child (error w))"

subsection \<open>Fetches started by the effect\<close>

text \<open>
  An async function is modelled by two functions: the part that runs up to its
  \<^verbatim>\<open>await\<close> (it returns the call issued), and \<open>_settled\<close>, the part that runs when the
  call resolves (\<open>Inr\<close>) or rejects (\<open>Inl\<close>), on the state of that later moment.
\<close>

definition fetchTools :: "wizard \<Rightarrow> wizard \<times> call" where
  "fetchTools w = (w\<lparr>error := JStr []\<rparr>, GetTools)"

definition fetchTools_settled :: "failure + Tool list \<Rightarrow> wizard \<Rightarrow> wizard" where
  "fetchTools_settled r w =
     (case r of
        Inr tools \<Rightarrow> w\<lparr>availableTools := tools\<rparr>
      | Inl err \<Rightarrow> w\<lparr>error := JStr (str ''Failed to load tools. Please try again.'')\<rparr>)"

definition fetchSelectedTools :: "int \<Rightarrow> wizard \<Rightarrow> wizard \<times> call" where
  "fetchSelectedTools agentId w = (w\<lparr>error := JStr []\<rparr>, GetAgentTools agentId)"

definition fetchSelectedTools_settled :: "failure + Tool list \<Rightarrow> wizard \<Rightarrow> wizard" where
  "fetchSelectedTools_settled r w =
     (case r of
        Inr tools \<Rightarrow> w\<lparr>selectedToolIds := map Tool_id tools\<rparr>
      | Inl err \<Rightarrow> w\<lparr>error := JStr (str ''Failed to load selected tools.'')\<rparr>)"

definition fetchDefinition :: "int \<Rightarrow> wizard \<Rightarrow> wizard \<times> call" where
  "fetchDefinition agentId w = (w\<lparr>error := JStr [], loading := True\<rparr>, GetDefinition agentId)"

definition fetchDefinition_settled :: "failure + AgentDefinition \<Rightarrow> wizard \<Rightarrow> wizard" where
  "fetchDefinition_settled r w =
     (case r of
        Inr definition \<Rightarrow> w\<lparr>agentDefinition := Some definition, loading := False\<rparr>
      | Inl err \<Rightarrow>
          w\<lparr>error := JStr (str ''Unable to fetch agent definition. Ensure policy is configured.''),
            loading := False\<rparr>)"

subsection \<open>Submit handlers\<close>

definition handleCreateAgent :: "wizard \<Rightarrow> wizard \<times> call" where
  "handleCreateAgent w = (w\<lparr>error := JStr [], loading := True\<rparr>, CreateAgent (metadataForm w))"

definition handleCreateAgent_settled :: "failure + Agent \<Rightarrow> wizard \<Rightarrow> wizard" where
  "handleCreateAgent_settled r w =
     (case r of
        Inr created \<Rightarrow> w\<lparr>agent := Some created, activeStep := str ''tools'', loading := False\<rparr>
      | Inl err \<Rightarrow>
          w\<lparr>error := coalesce (detail err) (JStr (str ''Unable to create agent. Check inputs.'')),
            loading := False\<rparr>)"

definition handleSaveTools :: "wizard \<Rightarrow> wizard \<times> call option" where
  "handleSaveTools w =
     (case agent w of
        None \<Rightarrow>
          (w\<lparr>error :=
              JStr (str ''Agent not created. Please go back to Metadata step and create the agent first.'')\<rparr>,
           None)
      | Some a \<Rightarrow>
          (w\<lparr>error := JStr [], loading := True\<rparr>,
           Some (SetAgentTools (Agent_id a) (selectedToolIds w))))"

definition handleSaveTools_settled :: "failure + Tool list \<Rightarrow> wizard \<Rightarrow> wizard" where
  "handleSaveTools_settled r w =
     (case r of
        Inr tools \<Rightarrow>
          w\<lparr>selectedToolIds := map Tool_id tools, activeStep := str ''policies'',
            loading := False\<rparr>
      | Inl err \<Rightarrow>
          w\<lparr>error := coalesce (detail err) (JStr (str ''Failed to save tools.'')), loading := False\<rparr>)"

definition handleSavePolicy :: "wizard \<Rightarrow> wizard \<times> call option" where
  "handleSavePolicy w =
     (case agent w of
        None \<Rightarrow>
          (w\<lparr>error :=
              JStr (str ''Agent not created. Please go back to Metadata step and create the agent first.'')\<rparr>,
           None)
      | Some a \<Rightarrow>
          if require_approval_for_all_tool_calls (policyForm w) \<and> length (selectedToolIds w) = 0
          then
            (w\<lparr>error :=
                JStr (str ''Agent has no tools and all tool calls require approval - this agent will be unusable.'')\<rparr>,
             None)
          else if (case frequency_limit (policyForm w) of None \<Rightarrow> False | Some n \<Rightarrow> n \<le> 0)
          then (w\<lparr>error := JStr (str ''Frequency limit must be positive when provided.'')\<rparr>, None)
          else
            (w\<lparr>error := JStr [], loading := True\<rparr>,
             Some (SetPolicy (Agent_id a) (policyForm w))))"

definition handleSavePolicy_settled :: "failure + Policy \<Rightarrow> wizard \<Rightarrow> wizard" where
  "handleSavePolicy_settled r w =
     (case r of
        Inr saved \<Rightarrow> w\<lparr>policy := Some saved, activeStep := str ''review'', loading := False\<rparr>
      | Inl err \<Rightarrow>
          w\<lparr>error := coalesce (detail err) (JStr (str ''Failed to save policy.'')), loading := False\<rparr>)"

subsection \<open>Back buttons\<close>

text \<open>The three \<^verbatim>\<open>onBack\<close> closures passed to ToolsStep, PolicyStep and ReviewStep.\<close>

definition onBack_tools :: "wizard \<Rightarrow> wizard" where
  "onBack_tools w = w\<lparr>activeStep := str ''metadata''\<rparr>"

definition onBack_policies :: "wizard \<Rightarrow> wizard" where
  "onBack_policies w = w\<lparr>activeStep := str ''tools''\<rparr>"

definition onBack_review :: "wizard \<Rightarrow> wizard" where
  "onBack_review w = w\<lparr>activeStep := str ''policies''\<rparr>"

subsection \<open>The effect on \<^verbatim>\<open>[activeStep, agent]\<close>\<close>

text \<open>
  The tests read the values of the render the effect belongs to (\<open>w\<close>); the state
  updates of the fetches it starts accumulate.
\<close>

definition useEffect :: "wizard \<Rightarrow> wizard \<times> call list" where
  "useEffect w =
     (let (w1, c1) =
            (if activeStep w = str ''tools'' \<and> length (availableTools w) = 0
             then (let (w', c) = fetchTools w in (w', [c])) else (w, []));
          (w2, c2) =
            (case agent w of
               Some a \<Rightarrow>
                 if activeStep w = str ''policies''
                 then (let (w', c) = fetchSelectedTools (Agent_id a) w1 in (w', [c]))
                 else (w1, [])
             | None \<Rightarrow> (w1, []));
          (w3, c3) =
            (case agent w of
               Some a \<Rightarrow>
                 if activeStep w = str ''review''
                 then (let (w', c) = fetchDefinition (Agent_id a) w2 in (w', [c]))
                 else (w2, [])
             | None \<Rightarrow> (w2, []))
      in (w3, c1 @ c2 @ c3))"

section \<open>The review step and its question form (ReviewStep)\<close>

text \<open>The \<^verbatim>\<open>useState\<close> cells of one mounted ReviewStep.\<close>

record review =
  question :: jsstring
  answer :: "jsstring option"
  qaError :: "jsstring option"
  qaLoading :: bool

definition initial_review :: review where
  "initial_review = \<lparr>question = [], answer = None, qaError = None, qaLoading = False\<rparr>"

text \<open>\<^verbatim>\<open>agentDefinition?.agent_id ?? null\<close>, and the truthiness \<^verbatim>\<open>!!agentId\<close> of a number or null.\<close>

definition agentId :: "AgentDefinition option \<Rightarrow> int option" where
  "agentId d = (case d of None \<Rightarrow> None | Some x \<Rightarrow> Some (AD_agent_id x))"

definition truthy :: "int option \<Rightarrow> bool" where
  "truthy i = (case i of None \<Rightarrow> False | Some n \<Rightarrow> n \<noteq> 0)"

definition canAsk :: "AgentDefinition option \<Rightarrow> review \<Rightarrow> bool" where
  "canAsk d r = (truthy (agentId d) \<and> length (trim (question r)) > 0 \<and> \<not> qaLoading r)"

definition onAsk :: "AgentDefinition option \<Rightarrow> review \<Rightarrow> review \<times> call option" where
  "onAsk d r =
     (if \<not> truthy (agentId d) then (r, None)
      else
        (r\<lparr>qaError := None, answer := None, qaLoading := True\<rparr>,
         Some (AskAgent (the (agentId d)) \<lparr>QA_question = question r, QA_session_id = None\<rparr>)))"

definition onAsk_settled :: "failure + AgentQAResponse \<Rightarrow> review \<Rightarrow> review" where
  "onAsk_settled res r =
     (case res of
        Inr x \<Rightarrow> r\<lparr>answer := Some (nullish (QAR_answer x) []), qaLoading := False\<rparr>
      | Inl e \<Rightarrow>
          r\<lparr>qaError :=
              Some (js_String (or_else (detail e)
                      (or_else (message e) (JStr (str ''Failed to get an answer''))))),
            qaLoading := False\<rparr>)"

definition onChange_question :: "jsstring \<Rightarrow> review \<Rightarrow> review" where
  "onChange_question v r = r\<lparr>question := v, answer := None, qaError := None\<rparr>"

text \<open>\<^verbatim>\<open>{qaError && <div style={errorStyle}>{qaError}</div>}\<close>\<close>

definition qa_banner :: "review \<Rightarrow> jsstring option" where
  "qa_banner r = (case qaError r of None \<Rightarrow> None | Some m \<Rightarrow> if m = [] then None else Some m)"

section \<open>The running page: user events and settling calls\<close>

text \<open>
  A call in flight is awaited either by the page or by one ReviewStep instance.
  ReviewStep is mounted exactly while \<open>activeStep\<close> is \<^verbatim>\<open>"review"\<close>; each mount is a new
  instance with fresh cells, and a state update of an unmounted instance is ignored.
\<close>

datatype owner = Page | Review nat

record app =
  page :: wizard
  form :: review
  mounts :: nat
  inflight :: "(call \<times> owner) list"

definition initial_app :: app where
  "initial_app = \<lparr>page = initial_wizard, form = initial_review, mounts = 0, inflight = []\<rparr>"

datatype response =
    AgentR Agent
  | ToolsR "Tool list"
  | PolicyR Policy
  | DefinitionR AgentDefinition
  | AnswerR AgentQAResponse

datatype event =
    SetName jsstring
  | SetDescription jsstring
  | SetPurpose jsstring
  | SetModel jsstring
  | SubmitMetadata
  | ToggleTool int
  | BackFromTools
  | SubmitTools
  | SetFrequencyLimit "real option"
  | SetRequireApproval bool
  | BackFromPolicies
  | SubmitPolicy
  | SetQuestion jsstring
  | Ask
  | BackFromReview
  | Settle nat "failure + response"

text \<open>
  What an event leads to: it cannot happen (\<open>Disabled\<close>), the render that follows it throws
  and the page is unmounted (\<open>Thrown\<close>), or the page is in a next state.
\<close>

datatype 'a outcome = Disabled | Thrown | Next 'a

text \<open>
  After the state updates of one event are applied the page renders again. When the
  render succeeds it is committed: leaving the review step unmounts ReviewStep, and the
  effect runs when \<open>activeStep\<close> differs from the previous render's or \<open>agent\<close> holds a new
  object.
\<close>

definition commit :: "jsstring \<Rightarrow> bool \<Rightarrow> app \<Rightarrow> app" where
  "commit prevStep newAgent a =
     (let a1 = (if prevStep = str ''review'' \<and> activeStep (page a) \<noteq> str ''review''
                then a\<lparr>form := initial_review, mounts := Suc (mounts a)\<rparr> else a)
      in if activeStep (page a1) \<noteq> prevStep \<or> newAgent
         then (let (w, cs) = useEffect (page a1)
               in a1\<lparr>page := w, inflight := inflight a1 @ map (\<lambda>c. (c, Page)) cs\<rparr>)
         else a1)"

text \<open>A state update of the page followed by its render.\<close>

definition rerender :: "bool \<Rightarrow> (wizard \<Rightarrow> wizard) \<Rightarrow> app \<Rightarrow> app outcome" where
  "rerender newAgent f a =
     (if render_throws (f (page a)) then Thrown
      else Next (commit (activeStep (page a)) newAgent (a\<lparr>page := f (page a)\<rparr>)))"

definition on_page :: "(wizard \<Rightarrow> wizard) \<Rightarrow> app \<Rightarrow> app outcome" where
  "on_page f a = rerender False f a"

text \<open>
  The part of a submit handler that runs at the click. It stores string literals only,
  which always render.
\<close>

definition submit :: "wizard \<times> call option \<Rightarrow> app \<Rightarrow> app" where
  "submit r a =
     (case r of
        (w, None) \<Rightarrow> a\<lparr>page := w\<rparr>
      | (w, Some c) \<Rightarrow> a\<lparr>page := w, inflight := inflight a @ [(c, Page)]\<rparr>)"

fun as_agent :: "failure + response \<Rightarrow> (failure + Agent) option" where
  "as_agent (Inl e) = Some (Inl e)"
| "as_agent (Inr (AgentR x)) = Some (Inr x)"
| "as_agent (Inr _) = None"

fun as_tools :: "failure + response \<Rightarrow> (failure + Tool list) option" where
  "as_tools (Inl e) = Some (Inl e)"
| "as_tools (Inr (ToolsR x)) = Some (Inr x)"
| "as_tools (Inr _) = None"

fun as_policy :: "failure + response \<Rightarrow> (failure + Policy) option" where
  "as_policy (Inl e) = Some (Inl e)"
| "as_policy (Inr (PolicyR x)) = Some (Inr x)"
| "as_policy (Inr _) = None"

fun as_definition :: "failure + response \<Rightarrow> (failure + AgentDefinition) option" where
  "as_definition (Inl e) = Some (Inl e)"
| "as_definition (Inr (DefinitionR x)) = Some (Inr x)"
| "as_definition (Inr _) = None"

fun as_answer :: "failure + response \<Rightarrow> (failure + AgentQAResponse) option" where
  "as_answer (Inl e) = Some (Inl e)"
| "as_answer (Inr (AnswerR x)) = Some (Inr x)"
| "as_answer (Inr _) = None"

text \<open>
  The continuation of one awaited call, on the state at the moment it settles.
  \<open>Disabled\<close>: the response is not of the call's type.
\<close>

definition typed :: "'x option \<Rightarrow> ('x \<Rightarrow> app outcome) \<Rightarrow> app outcome" where
  "typed r k = (case r of None \<Rightarrow> Disabled | Some x \<Rightarrow> k x)"

fun settled :: "call \<times> owner \<Rightarrow> failure + response \<Rightarrow> app \<Rightarrow> app outcome" where
  "settled (CreateAgent _, _) r a =
     typed (as_agent r) (\<lambda>x. rerender (\<not> isl x) (handleCreateAgent_settled x) a)"
| "settled (GetTools, _) r a =
     typed (as_tools r) (\<lambda>x. on_page (fetchTools_settled x) a)"
| "settled (SetAgentTools _ _, _) r a =
     typed (as_tools r) (\<lambda>x. on_page (handleSaveTools_settled x) a)"
| "settled (GetAgentTools _, _) r a =
     typed (as_tools r) (\<lambda>x. on_page (fetchSelectedTools_settled x) a)"
| "settled (SetPolicy _ _, _) r a =
     typed (as_policy r) (\<lambda>x. on_page (handleSavePolicy_settled x) a)"
| "settled (GetDefinition _, _) r a =
     typed (as_definition r) (\<lambda>x. on_page (fetchDefinition_settled x) a)"
| "settled (AskAgent _ _, Review k) r a =
     typed (as_answer r)
       (\<lambda>x. Next (if k = mounts a then a\<lparr>form := onAsk_settled x (form a)\<rparr> else a))"
| "settled (AskAgent _ _, Page) r a = Disabled"

text \<open>
  One event. \<open>Disabled\<close>: the control is not rendered or is disabled in this state, or
  no such call is in flight.
\<close>

fun step :: "event \<Rightarrow> app \<Rightarrow> app outcome" where
  "step (SetName v) a =
     (if activeStep (page a) = str ''metadata''
      then on_page (\<lambda>w. w\<lparr>metadataForm := (metadataForm w)\<lparr>name := v\<rparr>\<rparr>) a else Disabled)"
| "step (SetDescription v) a =
     (if activeStep (page a) = str ''metadata''
      then on_page (\<lambda>w. w\<lparr>metadataForm := (metadataForm w)\<lparr>description := v\<rparr>\<rparr>) a
      else Disabled)"
| "step (SetPurpose v) a =
     (if activeStep (page a) = str ''metadata''
      then on_page (\<lambda>w. w\<lparr>metadataForm := (metadataForm w)\<lparr>purpose := v\<rparr>\<rparr>) a
      else Disabled)"
| "step (SetModel v) a =
     (if activeStep (page a) = str ''metadata'' \<and> v \<in> set models
      then on_page (\<lambda>w. w\<lparr>metadataForm := (metadataForm w)\<lparr>model := v\<rparr>\<rparr>) a
      else Disabled)"
| "step SubmitMetadata a =
     (if activeStep (page a) = str ''metadata'' \<and>
         \<not> metadata_next_disabled (isMetadataValid (metadataForm (page a))) (loading (page a))
      then Next (submit (apsnd Some (handleCreateAgent (page a))) a) else Disabled)"
| "step (ToggleTool t) a =
     (if activeStep (page a) = str ''tools'' \<and> t \<in> Tool_id ` set (availableTools (page a))
      then on_page (\<lambda>w. w\<lparr>selectedToolIds :=
                  onChange_tool (selectedToolIds w) t (\<not> checked (selectedToolIds w) t)\<rparr>) a
      else Disabled)"
| "step BackFromTools a =
     (if activeStep (page a) = str ''tools'' \<and> \<not> loading (page a)
      then on_page onBack_tools a else Disabled)"
| "step SubmitTools a =
     (if activeStep (page a) = str ''tools'' \<and> \<not> loading (page a)
      then Next (submit (handleSaveTools (page a)) a) else Disabled)"
| "step (SetFrequencyLimit v) a =
     (if activeStep (page a) = str ''policies''
      then on_page (\<lambda>w. w\<lparr>policyForm := (policyForm w)\<lparr>frequency_limit := v\<rparr>\<rparr>) a
      else Disabled)"
| "step (SetRequireApproval b) a =
     (if activeStep (page a) = str ''policies''
      then on_page (\<lambda>w. w\<lparr>policyForm :=
                  (policyForm w)\<lparr>require_approval_for_all_tool_calls := b\<rparr>\<rparr>) a
      else Disabled)"
| "step BackFromPolicies a =
     (if activeStep (page a) = str ''policies'' \<and> \<not> loading (page a)
      then on_page onBack_policies a else Disabled)"
| "step SubmitPolicy a =
     (if activeStep (page a) = str ''policies'' \<and> \<not> loading (page a)
      then Next (submit (handleSavePolicy (page a)) a) else Disabled)"
| "step (SetQuestion v) a =
     (if activeStep (page a) = str ''review'' \<and> truthy (agentId (agentDefinition (page a)))
      then Next (a\<lparr>form := onChange_question v (form a)\<rparr>) else Disabled)"
| "step Ask a =
     (if activeStep (page a) = str ''review'' \<and> agentDefinition (page a) \<noteq> None \<and>
         canAsk (agentDefinition (page a)) (form a)
      then (case onAsk (agentDefinition (page a)) (form a) of
              (r, None) \<Rightarrow> Next (a\<lparr>form := r\<rparr>)
            | (r, Some c) \<Rightarrow>
                Next (a\<lparr>form := r, inflight := inflight a @ [(c, Review (mounts a))]\<rparr>))
      else Disabled)"
| "step BackFromReview a =
     (if activeStep (page a) = str ''review'' \<and> \<not> loading (page a)
      then on_page onBack_review a else Disabled)"
| "step (Settle i r) a =
     (if i < length (inflight a)
      then settled (inflight a ! i) r (a\<lparr>inflight := take i (inflight a) @ drop (Suc i) (inflight a)\<rparr>)
      else Disabled)"

text \<open>
  The next state of the page, if the event leads to one; and the events after which
  the page is gone.
\<close>

definition fire_of :: "'a outcome \<Rightarrow> 'a option" where
  "fire_of r = (case r of Next a' \<Rightarrow> Some a' | _ \<Rightarrow> None)"

definition fire :: "event \<Rightarrow> app \<Rightarrow> app option" where
  "fire e a = fire_of (step e a)"

definition unmounts :: "event \<Rightarrow> app \<Rightarrow> bool" where
  "unmounts e a = (case step e a of Thrown \<Rightarrow> True | _ \<Rightarrow> False)"

text \<open>
  A sequence of events from a state, as long as the page is there: \<open>None\<close> when one of
  them cannot happen or unmounts the page.
\<close>

fun run :: "event list \<Rightarrow> app \<Rightarrow> app option" where
  "run [] a = Some a"
| "run (e # es) a = (case fire e a of None \<Rightarrow> None | Some a' \<Rightarrow> run es a')"

section \<open>Bookkeeping on calls in flight\<close>

text \<open>
  The calls whose handler sets \<open>loading\<close> before issuing them and clears it when they
  settle: the three submit handlers and \<open>fetchDefinition\<close>.
\<close>

fun guarded :: "call \<Rightarrow> bool" where
  "guarded (CreateAgent _) = True"
| "guarded (SetAgentTools _ _) = True"
| "guarded (SetPolicy _ _) = True"
| "guarded (GetDefinition _) = True"
| "guarded _ = False"

text \<open>The calls issued by the click handler of a button: the submit handlers and \<open>onAsk\<close>.\<close>

fun clicked :: "call \<Rightarrow> bool" where
  "clicked (CreateAgent _) = True"
| "clicked (SetAgentTools _ _) = True"
| "clicked (SetPolicy _ _) = True"
| "clicked (AskAgent _ _) = True"
| "clicked _ = False"

fun is_ask :: "call \<Rightarrow> bool" where
  "is_ask (AskAgent _ _) = True"
| "is_ask _ = False"

text \<open>The step whose component or effect branch issues a call.\<close>

fun home :: "call \<Rightarrow> jsstring" where
  "home (CreateAgent _) = str ''metadata''"
| "home GetTools = str ''tools''"
| "home (SetAgentTools _ _) = str ''tools''"
| "home (GetAgentTools _) = str ''policies''"
| "home (SetPolicy _ _) = str ''policies''"
| "home (GetDefinition _) = str ''review''"
| "home (AskAgent _ _) = str ''review''"

definition guarded_inflight :: "app \<Rightarrow> nat" where
  "guarded_inflight a = length (filter (\<lambda>p. guarded (fst p)) (inflight a))"

definition clicked_inflight :: "app \<Rightarrow> nat" where
  "clicked_inflight a = length (filter (\<lambda>p. clicked (fst p)) (inflight a))"

definition asks_inflight :: "app \<Rightarrow> nat" where
  "asks_inflight a = length (filter (\<lambda>p. is_ask (fst p)) (inflight a))"

text \<open>The calls awaited by the ReviewStep instance that is (or will next be) mounted.\<close>

definition own_asks_inflight :: "app \<Rightarrow> nat" where
  "own_asks_inflight a = length (filter (\<lambda>p. snd p = Review (mounts a)) (inflight a))"

text \<open>The invariant of the running page.\<close>

definition page_invariant :: "app \<Rightarrow> bool" where
  "page_invariant a =
     (guarded_inflight a = (if loading (page a) then 1 else 0) \<and>
      (\<forall>p \<in> set (inflight a). guarded (fst p) \<longrightarrow> home (fst p) = activeStep (page a)) \<and>
      (activeStep (page a) \<noteq> str ''metadata'' \<longrightarrow> agent (page a) \<noteq> None) \<and>
      own_asks_inflight a = (if qaLoading (form a) then 1 else 0) \<and>
      (\<forall>p \<in> set (inflight a). \<forall>k. snd p = Review k \<longrightarrow> k \<le> mounts a) \<and>
      (\<forall>p \<in> set (inflight a). snd p \<noteq> Page \<longrightarrow> is_ask (fst p)))"

text \<open>The page shows one of the four steps, and its error cell renders.\<close>

definition page_renders :: "app \<Rightarrow> bool" where
  "page_renders a =
     (activeStep (page a) \<in> set (map fst steps) \<and> valid_child (error (page a)))"

section \<open>The order of the steps\<close>

text \<open>
  The key that follows a key in a list of keys, if any; the next and the preceding step
  are read off the \<open>steps\<close> array this way.
\<close>

fun successor :: "'a list \<Rightarrow> 'a \<Rightarrow> 'a option" where
  "successor (x # y # ys) k = (if k = x then Some y else successor (y # ys) k)"
| "successor _ k = None"

definition next_step :: "jsstring \<Rightarrow> jsstring option" where
  "next_step k = successor (map fst steps) k"

definition previous_step :: "jsstring \<Rightarrow> jsstring option" where
  "previous_step k = successor (rev (map fst steps)) k"

section \<open>Concrete payloads and runs\<close>

definition demo_form :: AgentCreate where
  "demo_form =
     \<lparr>name = str ''a'', description = str ''0123456789'', purpose = str ''12345'',
      model = str ''gpt-4.1-mini''\<rparr>"

definition demo_agent :: Agent where
  "demo_agent =
     \<lparr>Agent_id = 1, Agent_name = str ''a'', Agent_description = str ''0123456789'',
      Agent_purpose = str ''12345'', Agent_model = str ''gpt-4.1-mini'',
      Agent_created_at = str ''2024-01-01'', Agent_updated_at = str ''2024-01-01''\<rparr>"

definition demo_policy :: Policy where
  "demo_policy =
     \<lparr>Policy_id = 1, Policy_agent_id = 1, Policy_frequency_limit = None,
      Policy_require_approval_for_all_tool_calls = False\<rparr>"

definition demo_definition :: AgentDefinition where
  "demo_definition =
     \<lparr>AD_agent_id = 1, AD_name = str ''a'', AD_description = str ''0123456789'',
      AD_purpose = str ''12345'', AD_model = str ''gpt-4.1-mini'', AD_tools = [],
      AD_policy = \<lparr>ADPolicy_allowed_tool_ids = [], ADPolicy_frequency_limit = None,
                   ADPolicy_require_approval_for_all_tool_calls = False\<rparr>\<rparr>"

text \<open>
  A rejection as a validation error of the backend delivers it (status 422): the detail
  is a list of objects.
\<close>

definition validation_failure :: failure where
  "validation_failure =
     \<lparr>detail = Some (JArr [JObj [(str ''loc'', JArr [JStr (str ''body''), JStr (str ''name'')]),
                                  (str ''msg'', JStr (str ''field required'')),
                                  (str ''type'', JStr (str ''value_error.missing''))]]),
      message = Some (JStr (str ''Request failed with status code 422''))\<rparr>"

text \<open>A rejection whose detail is the empty string.\<close>

definition empty_detail_failure :: failure where
  "empty_detail_failure =
     \<lparr>detail = Some (JStr []),
      message = Some (JStr (str ''Request failed with status code 400''))\<rparr>"

text \<open>The form is filled in and submitted: \<open>createAgent\<close> is in flight (index 0).\<close>

definition to_create_pending :: "event list" where
  "to_create_pending =
     [SetName (str ''a''), SetDescription (str ''0123456789''), SetPurpose (str ''12345''),
      SubmitMetadata]"

text \<open>The agent is created; the effect has started \<open>getTools\<close> (index 0).\<close>

definition to_tools :: "event list" where
  "to_tools = to_create_pending @ [Settle 0 (Inr (AgentR demo_agent))]"

text \<open>No tool is saved; the effect has started \<open>getAgentTools\<close> (index 1).\<close>

definition to_policies :: "event list" where
  "to_policies = to_tools @ [SubmitTools, Settle 1 (Inr (ToolsR []))]"

text \<open>The policy is saved and the definition is loaded.\<close>

definition to_review :: "event list" where
  "to_review =
     to_policies @ [SubmitPolicy, Settle 2 (Inr (PolicyR demo_policy)),
                    Settle 2 (Inr (DefinitionR demo_definition))]"

text \<open>A question is asked, then Back and Next are pressed while it is in flight.\<close>

definition to_overlap :: "event list" where
  "to_overlap = to_review @ [SetQuestion (str ''q''), Ask, BackFromReview, SubmitPolicy]"

text \<open>
  The policy call settles, the review step is mounted again and a question is typed,
  the first question still being in flight.
\<close>

definition to_second_question :: "event list" where
  "to_second_question =
     to_overlap @ [Settle 4 (Inr (PolicyR demo_policy)), SetQuestion (str ''q'')]"

text \<open>The states some of these runs end in.\<close>

definition at_create_pending :: app where
  "at_create_pending = the (run to_create_pending initial_app)"

definition at_tools :: app where
  "at_tools = the (run to_tools initial_app)"

definition at_approval_without_tools :: app where
  "at_approval_without_tools = the (run (to_policies @ [SetRequireApproval True]) initial_app)"

definition at_zero_limit :: app where
  "at_zero_limit = the (run (to_policies @ [SetFrequencyLimit (Some 0)]) initial_app)"

definition at_limit_five :: app where
  "at_limit_five = the (run (to_policies @ [SetFrequencyLimit (Some 5)]) initial_app)"

definition at_question :: app where
  "at_question = the (run (to_review @ [SetQuestion (str ''q'')]) initial_app)"

section \<open>Basic facts\<close>

lemma str_length [simp]: "length (str s) = length s"
  by (simp add: str_def)

lemma of_char_word_inj: "(of_char c :: 16 word) = of_char d \<longleftrightarrow> c = d"
proof
  assume h: "(of_char c :: 16 word) = of_char d"
  have lt: "\<And>x. (of_char x :: nat) < 2 ^ 16"
  proof -
    fix x
    have "(of_char x :: nat) mod 256 < 256" by simp
    then have "(of_char x :: nat) < 256" by (simp only: of_char_mod_256)
    then show "(of_char x :: nat) < 2 ^ 16" by (rule less_trans) simp
  qed
  have "unat (of_nat (of_char c) :: 16 word) = unat (of_nat (of_char d) :: 16 word)"
    using h by (simp only: of_nat_of_char)
  then have "(of_char c :: nat) = of_char d"
    using lt by (simp add: unat_of_nat take_bit_nat_eq_self)
  then show "c = d" by simp
qed simp

lemma str_eq_iff [simp]: "str a = str b \<longleftrightarrow> a = b"
  unfolding str_def
  by (rule inj_map_eq_map) (simp add: inj_on_def of_char_word_inj)

lemma str_Nil_iff [simp]: "str s = [] \<longleftrightarrow> s = []" "[] = str s \<longleftrightarrow> s = []"
  by (auto simp: str_def)

lemma useEffect_frame [simp]:
  "activeStep (fst (useEffect w)) = activeStep w"
  "agent (fst (useEffect w)) = agent w"
  "agentDefinition (fst (useEffect w)) = agentDefinition w"
  "availableTools (fst (useEffect w)) = availableTools w"
  "selectedToolIds (fst (useEffect w)) = selectedToolIds w"
  "policy (fst (useEffect w)) = policy w"
  "metadataForm (fst (useEffect w)) = metadataForm w"
  "policyForm (fst (useEffect w)) = policyForm w"
  by (simp_all add: useEffect_def fetchTools_def fetchSelectedTools_def fetchDefinition_def
      split: option.splits)

lemma useEffect_loading [simp]:
  "loading (fst (useEffect w)) = (loading w \<or> (activeStep w = str ''review'' \<and> agent w \<noteq> None))"
  by (simp add: useEffect_def fetchTools_def fetchSelectedTools_def fetchDefinition_def
      split: option.splits)

lemma useEffect_calls:
  "snd (useEffect w) =
     (if activeStep w = str ''tools'' \<and> availableTools w = [] then [GetTools] else []) @
     (case agent w of None \<Rightarrow> []
      | Some a \<Rightarrow> (if activeStep w = str ''policies'' then [GetAgentTools (Agent_id a)] else []) @
                  (if activeStep w = str ''review'' then [GetDefinition (Agent_id a)] else []))"
  by (simp add: useEffect_def fetchTools_def fetchSelectedTools_def fetchDefinition_def
      split: option.splits)

lemma useEffect_guarded:
  "filter guarded (snd (useEffect w)) =
     (case agent w of None \<Rightarrow> []
      | Some a \<Rightarrow> if activeStep w = str ''review'' then [GetDefinition (Agent_id a)] else [])"
  by (simp add: useEffect_calls split: option.splits)

lemma filter_remove_nth:
  "i < length xs \<Longrightarrow>
   length (filter P (take i xs @ drop (Suc i) xs)) =
   length (filter P xs) - (if P (xs ! i) then 1 else 0)"
proof -
  assume "i < length xs"
  then have "xs = take i xs @ xs ! i # drop (Suc i) xs" by (rule id_take_nth_drop)
  then have "filter P xs = filter P (take i xs) @ filter P (xs ! i # drop (Suc i) xs)"
    by (metis filter_append)
  then show ?thesis by simp
qed

lemma set_remove_nth: "set (take i xs @ drop (Suc i) xs) \<subseteq> set xs"
  by (auto dest: in_set_takeD in_set_dropD)


lemma commit_frame [simp]:
  "activeStep (page (commit p n a)) = activeStep (page a)"
  "agent (page (commit p n a)) = agent (page a)"
  "agentDefinition (page (commit p n a)) = agentDefinition (page a)"
  "availableTools (page (commit p n a)) = availableTools (page a)"
  "selectedToolIds (page (commit p n a)) = selectedToolIds (page a)"
  "policy (page (commit p n a)) = policy (page a)"
  "metadataForm (page (commit p n a)) = metadataForm (page a)"
  "policyForm (page (commit p n a)) = policyForm (page a)"
  by (simp_all add: commit_def Let_def split_beta)

lemma commit_loading:
  "loading (page (commit p n a)) =
     (loading (page a) \<or>
      ((activeStep (page a) \<noteq> p \<or> n) \<and> activeStep (page a) = str ''review'' \<and>
       agent (page a) \<noteq> None))"
  by (simp add: commit_def Let_def split_beta)

lemma commit_mounts:
  "mounts (commit p n a) =
     (if p = str ''review'' \<and> activeStep (page a) \<noteq> str ''review'' then Suc (mounts a)
      else mounts a)"
  by (simp add: commit_def Let_def split_beta)

lemma commit_form:
  "form (commit p n a) =
     (if p = str ''review'' \<and> activeStep (page a) \<noteq> str ''review'' then initial_review
      else form a)"
  by (simp add: commit_def Let_def split_beta)

lemma commit_inflight:
  "inflight (commit p n a) =
     inflight a @ map (\<lambda>c. (c, Page))
       (if activeStep (page a) \<noteq> p \<or> n then snd (useEffect (page a)) else [])"
  by (simp add: commit_def Let_def split_beta)

lemma filter_fst_map_Page:
  "filter (\<lambda>p. P (fst p)) (map (\<lambda>c. (c, Page)) cs) = map (\<lambda>c. (c, Page)) (filter P cs)"
  by (induction cs) auto

lemma filter_Review_map_Page:
  "filter (\<lambda>p. snd p = Review k) (map (\<lambda>c. (c, Page)) cs) = []"
  by (induction cs) auto

lemma no_later_owner:
  "\<forall>p \<in> set xs. \<forall>k. snd p = Review k \<longrightarrow> k \<le> m \<Longrightarrow>
   filter (\<lambda>p. snd p = Review (Suc m)) xs = []"
  by (induction xs) auto

lemma none_guarded:
  "length (filter (\<lambda>p. guarded (fst p)) xs) = 0 \<Longrightarrow> p \<in> set xs \<Longrightarrow> \<not> guarded (fst p)"
  by (induction xs) (auto split: if_splits)

lemma inv_commit:
  assumes "page_invariant a"
    and "activeStep (page a) \<noteq> p \<or> n \<Longrightarrow> \<not> loading (page a)"
  shows "page_invariant (commit p n a)"
proof -
  have g: "guarded_inflight (commit p n a) = (if loading (page (commit p n a)) then 1 else 0)"
    using assms
    by (auto simp: page_invariant_def guarded_inflight_def commit_inflight commit_loading
        filter_fst_map_Page useEffect_guarded split: option.splits)
  have h: "\<forall>q \<in> set (inflight (commit p n a)).
             guarded (fst q) \<longrightarrow> home (fst q) = activeStep (page (commit p n a))"
    using assms
    by (auto simp: page_invariant_def commit_inflight useEffect_calls split: option.splits if_splits)
  have ag: "activeStep (page (commit p n a)) \<noteq> str ''metadata'' \<longrightarrow>
            agent (page (commit p n a)) \<noteq> None"
    using assms by (simp add: page_invariant_def)
  have o: "own_asks_inflight (commit p n a) = (if qaLoading (form (commit p n a)) then 1 else 0)"
    using assms(1)
    by (auto simp: page_invariant_def own_asks_inflight_def commit_inflight commit_mounts commit_form
        filter_Review_map_Page no_later_owner initial_review_def)
  have k: "\<forall>q \<in> set (inflight (commit p n a)). \<forall>k. snd q = Review k \<longrightarrow>
             k \<le> mounts (commit p n a)"
    using assms(1)
    by (auto simp: page_invariant_def commit_inflight commit_mounts le_Suc_eq)
  have pg: "\<forall>q \<in> set (inflight (commit p n a)). snd q \<noteq> Page \<longrightarrow> is_ask (fst q)"
    using assms(1) by (auto simp: page_invariant_def commit_inflight)
  show ?thesis
    unfolding page_invariant_def using g h ag o k pg by blast
qed

lemma inv_page:
  assumes "page_invariant a"
    and "loading w = loading (page a)"
    and "activeStep w = activeStep (page a)"
    and "agent w = agent (page a)"
  shows "page_invariant (a\<lparr>page := w\<rparr>)"
  using assms
  by (simp add: page_invariant_def guarded_inflight_def own_asks_inflight_def)

lemma inv_idle_page:
  assumes "page_invariant a"
    and "\<not> loading (page a)"
    and "\<not> loading w"
    and "activeStep w \<noteq> str ''metadata'' \<longrightarrow> agent w \<noteq> None"
  shows "page_invariant (a\<lparr>page := w\<rparr>)"
  using assms
  by (auto simp: page_invariant_def guarded_inflight_def own_asks_inflight_def filter_empty_conv)

lemma inv_issue:
  assumes "page_invariant a"
    and "\<not> loading (page a)"
    and "loading w"
    and "activeStep w = activeStep (page a)"
    and "agent w = agent (page a)"
    and "guarded c"
    and "home c = activeStep (page a)"
  shows "page_invariant (a\<lparr>page := w, inflight := inflight a @ [(c, Page)]\<rparr>)"
  using assms
  by (auto simp: page_invariant_def guarded_inflight_def own_asks_inflight_def filter_empty_conv)

lemma inv_settle_guarded:
  assumes "page_invariant a" and "i < length (inflight a)" and "guarded (fst (inflight a ! i))"
  shows "loading (page a)"
    and "home (fst (inflight a ! i)) = activeStep (page a)"
    and "\<not> loading w \<Longrightarrow> (activeStep w \<noteq> str ''metadata'' \<longrightarrow> agent w \<noteq> None) \<Longrightarrow>
         page_invariant (a\<lparr>inflight := take i (inflight a) @ drop (Suc i) (inflight a), page := w\<rparr>)"
proof -
  let ?xs = "inflight a" and ?ys = "take i (inflight a) @ drop (Suc i) (inflight a)"
  have mem: "?xs ! i \<in> set ?xs" using assms(2) by simp
  have "0 < length (filter (\<lambda>p. guarded (fst p)) ?xs)"
    using mem assms(3) by (auto simp: filter_empty_conv)
  then show l: "loading (page a)"
    using assms(1) by (auto simp: page_invariant_def guarded_inflight_def split: if_splits)
  show "home (fst (?xs ! i)) = activeStep (page a)"
    using assms(1,3) mem by (auto simp: page_invariant_def)
  have cnt: "length (filter (\<lambda>p. guarded (fst p)) ?ys) = 0"
    using assms l filter_remove_nth[OF assms(2), of "\<lambda>p. guarded (fst p)"]
    by (simp add: page_invariant_def guarded_inflight_def)
  have own: "snd (?xs ! i) \<noteq> Review (mounts a)"
    using assms(1,3) mem by (cases "fst (?xs ! i)") (auto simp: page_invariant_def)
  have cnt2: "length (filter (\<lambda>p. snd p = Review (mounts a)) ?ys) =
              length (filter (\<lambda>p. snd p = Review (mounts a)) ?xs)"
    using own filter_remove_nth[OF assms(2), of "\<lambda>p. snd p = Review (mounts a)"] by simp
  have sub: "set ?ys \<subseteq> set ?xs" by (rule set_remove_nth)
  assume "\<not> loading w" "activeStep w \<noteq> str ''metadata'' \<longrightarrow> agent w \<noteq> None"
  then show "page_invariant (a\<lparr>inflight := ?ys, page := w\<rparr>)"
    unfolding page_invariant_def guarded_inflight_def own_asks_inflight_def
    using assms(1) cnt cnt2 sub none_guarded[OF cnt]
    by (auto simp: page_invariant_def own_asks_inflight_def)
qed

lemma inv_settle_plain:
  assumes "page_invariant a" and "i < length (inflight a)" and "\<not> guarded (fst (inflight a ! i))"
    and "snd (inflight a ! i) \<noteq> Review (mounts a)"
    and "loading w = loading (page a)" and "activeStep w = activeStep (page a)"
    and "agent w = agent (page a)"
  shows "page_invariant (a\<lparr>inflight := take i (inflight a) @ drop (Suc i) (inflight a), page := w\<rparr>)"
proof -
  let ?xs = "inflight a" and ?ys = "take i (inflight a) @ drop (Suc i) (inflight a)"
  have cnt: "length (filter (\<lambda>p. guarded (fst p)) ?ys) = length (filter (\<lambda>p. guarded (fst p)) ?xs)"
    using assms(3) filter_remove_nth[OF assms(2), of "\<lambda>p. guarded (fst p)"] by simp
  have cnt2: "length (filter (\<lambda>p. snd p = Review (mounts a)) ?ys) =
              length (filter (\<lambda>p. snd p = Review (mounts a)) ?xs)"
    using assms(4) filter_remove_nth[OF assms(2), of "\<lambda>p. snd p = Review (mounts a)"] by simp
  have sub: "set ?ys \<subseteq> set ?xs" by (rule set_remove_nth)
  show ?thesis
    unfolding page_invariant_def guarded_inflight_def own_asks_inflight_def
    using assms(1,5,6,7) cnt cnt2 sub
    by (auto simp: page_invariant_def guarded_inflight_def own_asks_inflight_def)
qed

lemma inv_settle_own:
  assumes "page_invariant a" and "i < length (inflight a)"
    and "snd (inflight a ! i) = Review (mounts a)"
  shows "qaLoading (form a)"
    and "\<not> qaLoading r \<Longrightarrow>
         page_invariant (a\<lparr>inflight := take i (inflight a) @ drop (Suc i) (inflight a), form := r\<rparr>)"
proof -
  let ?xs = "inflight a" and ?ys = "take i (inflight a) @ drop (Suc i) (inflight a)"
  have mem: "?xs ! i \<in> set ?xs" using assms(2) by simp
  have "0 < length (filter (\<lambda>p. snd p = Review (mounts a)) ?xs)"
    using mem assms(3) by (auto simp: filter_empty_conv)
  then show q: "qaLoading (form a)"
    using assms(1) by (auto simp: page_invariant_def own_asks_inflight_def split: if_splits)
  have ng: "\<not> guarded (fst (?xs ! i))"
    using assms(1,3) mem by (cases "fst (?xs ! i)") (auto simp: page_invariant_def)
  have cnt: "length (filter (\<lambda>p. guarded (fst p)) ?ys) = length (filter (\<lambda>p. guarded (fst p)) ?xs)"
    using ng filter_remove_nth[OF assms(2), of "\<lambda>p. guarded (fst p)"] by simp
  have cnt2: "length (filter (\<lambda>p. snd p = Review (mounts a)) ?ys) = 0"
    using assms q filter_remove_nth[OF assms(2), of "\<lambda>p. snd p = Review (mounts a)"]
    by (simp add: page_invariant_def own_asks_inflight_def)
  have sub: "set ?ys \<subseteq> set ?xs" by (rule set_remove_nth)
  assume "\<not> qaLoading r"
  then show "page_invariant (a\<lparr>inflight := ?ys, form := r\<rparr>)"
    unfolding page_invariant_def guarded_inflight_def own_asks_inflight_def
    using assms(1) cnt cnt2 sub
    by (auto simp: page_invariant_def guarded_inflight_def)
qed


lemma rerender_Next [simp]:
  "rerender n f a = Next a' \<longleftrightarrow>
     \<not> render_throws (f (page a)) \<and>
     a' = commit (activeStep (page a)) n (a\<lparr>page := f (page a)\<rparr>)"
  by (auto simp: rerender_def)

lemma on_page_Next [simp]:
  "on_page f a = Next a' \<longleftrightarrow>
     \<not> render_throws (f (page a)) \<and>
     a' = commit (activeStep (page a)) False (a\<lparr>page := f (page a)\<rparr>)"
  by (simp add: on_page_def)

lemma typed_Next [simp]: "typed r k = Next a' \<longleftrightarrow> (\<exists>x. r = Some x \<and> k x = Next a')"
  by (simp add: typed_def split: option.splits)

lemma fire_Some: "fire e a = Some a' \<longleftrightarrow> step e a = Next a'"
  by (simp add: fire_def fire_of_def split: outcome.splits)

lemma fire_None: "fire e a = None \<longleftrightarrow> (\<forall>a'. step e a \<noteq> Next a')"
  by (simp add: fire_def fire_of_def split: outcome.splits)

lemma inv_agent: "page_invariant a \<Longrightarrow> activeStep (page a) \<noteq> str ''metadata'' \<Longrightarrow> agent (page a) \<noteq> None"
  by (simp add: page_invariant_def)

lemma inv_settled:
  assumes "page_invariant a" and i: "i < length (inflight a)"
    and s: "settled (inflight a ! i) r
              (a\<lparr>inflight := take i (inflight a) @ drop (Suc i) (inflight a)\<rparr>) = Next a'"
  shows "page_invariant a'"
proof -
  let ?a0 = "a\<lparr>inflight := take i (inflight a) @ drop (Suc i) (inflight a)\<rparr>"
  obtain c ow where p: "inflight a ! i = (c, ow)" by (cases "inflight a ! i")
  have mem: "(c, ow) \<in> set (inflight a)" using i p by (metis nth_mem)
  note ag = inv_agent[OF assms(1)]
  show ?thesis
  proof (cases c)
    case (CreateAgent f)
    then have g: "guarded (fst (inflight a ! i))" using p by simp
    from s p CreateAgent obtain x where x: "as_agent r = Some x"
      and a': "a' = commit (activeStep (page a)) (\<not> isl x)
                 (?a0\<lparr>page := handleCreateAgent_settled x (page a)\<rparr>)"
      by auto
    have "page_invariant (?a0\<lparr>page := handleCreateAgent_settled x (page a)\<rparr>)"
      using inv_settle_guarded(3)[OF assms(1) i g, of "handleCreateAgent_settled x (page a)"] ag
      by (cases x) (auto simp: handleCreateAgent_settled_def)
    then show ?thesis
      unfolding a' by (rule inv_commit) (cases x; simp add: handleCreateAgent_settled_def)
  next
    case GetTools
    then have g: "\<not> guarded (fst (inflight a ! i))" using p by simp
    have ow: "snd (inflight a ! i) \<noteq> Review (mounts a)"
      using assms(1) mem p GetTools by (auto simp: page_invariant_def)
    from s p GetTools obtain x where x: "as_tools r = Some x"
      and a': "a' = commit (activeStep (page a)) False (?a0\<lparr>page := fetchTools_settled x (page a)\<rparr>)"
      by auto
    have "page_invariant (?a0\<lparr>page := fetchTools_settled x (page a)\<rparr>)"
      by (rule inv_settle_plain[OF assms(1) i g ow]) (cases x; simp add: fetchTools_settled_def)+
    then show ?thesis
      unfolding a'
      by (intro inv_commit) (cases x; simp add: fetchTools_settled_def)+
  next
    case (SetAgentTools n ids)
    then have g: "guarded (fst (inflight a ! i))" using p by simp
    from s p SetAgentTools obtain x where x: "as_tools r = Some x"
      and a': "a' = commit (activeStep (page a)) False (?a0\<lparr>page := handleSaveTools_settled x (page a)\<rparr>)"
      by auto
    have h: "activeStep (page a) = str ''tools''"
      using inv_settle_guarded(2)[OF assms(1) i g] p SetAgentTools by simp
    have "page_invariant (?a0\<lparr>page := handleSaveTools_settled x (page a)\<rparr>)"
      using inv_settle_guarded(3)[OF assms(1) i g, of "handleSaveTools_settled x (page a)"] ag h
      by (cases x) (auto simp: handleSaveTools_settled_def)
    then show ?thesis
      unfolding a'
      by (intro inv_commit) (cases x; simp add: handleSaveTools_settled_def)+
  next
    case (GetAgentTools n)
    then have g: "\<not> guarded (fst (inflight a ! i))" using p by simp
    have ow: "snd (inflight a ! i) \<noteq> Review (mounts a)"
      using assms(1) mem p GetAgentTools by (auto simp: page_invariant_def)
    from s p GetAgentTools obtain x where x: "as_tools r = Some x"
      and a': "a' = commit (activeStep (page a)) False (?a0\<lparr>page := fetchSelectedTools_settled x (page a)\<rparr>)"
      by auto
    have "page_invariant (?a0\<lparr>page := fetchSelectedTools_settled x (page a)\<rparr>)"
      by (rule inv_settle_plain[OF assms(1) i g ow])
         (cases x; simp add: fetchSelectedTools_settled_def)+
    then show ?thesis
      unfolding a'
      by (intro inv_commit) (cases x; simp add: fetchSelectedTools_settled_def)+
  next
    case (SetPolicy n f)
    then have g: "guarded (fst (inflight a ! i))" using p by simp
    from s p SetPolicy obtain x where x: "as_policy r = Some x"
      and a': "a' = commit (activeStep (page a)) False (?a0\<lparr>page := handleSavePolicy_settled x (page a)\<rparr>)"
      by auto
    have h: "activeStep (page a) = str ''policies''"
      using inv_settle_guarded(2)[OF assms(1) i g] p SetPolicy by simp
    have "page_invariant (?a0\<lparr>page := handleSavePolicy_settled x (page a)\<rparr>)"
      using inv_settle_guarded(3)[OF assms(1) i g, of "handleSavePolicy_settled x (page a)"] ag h
      by (cases x) (auto simp: handleSavePolicy_settled_def)
    then show ?thesis
      unfolding a'
      by (intro inv_commit) (cases x; simp add: handleSavePolicy_settled_def)+
  next
    case (GetDefinition n)
    then have g: "guarded (fst (inflight a ! i))" using p by simp
    from s p GetDefinition obtain x where x: "as_definition r = Some x"
      and a': "a' = commit (activeStep (page a)) False (?a0\<lparr>page := fetchDefinition_settled x (page a)\<rparr>)"
      by auto
    have "page_invariant (?a0\<lparr>page := fetchDefinition_settled x (page a)\<rparr>)"
      using inv_settle_guarded(3)[OF assms(1) i g, of "fetchDefinition_settled x (page a)"] ag
      by (cases x) (auto simp: fetchDefinition_settled_def)
    then show ?thesis
      unfolding a'
      by (intro inv_commit) (cases x; simp add: fetchDefinition_settled_def)+
  next
    case (AskAgent n q)
    then have g: "\<not> guarded (fst (inflight a ! i))" using p by simp
    from s p AskAgent obtain k where k: "ow = Review k" by (cases ow) auto
    from s p AskAgent k obtain x where x: "as_answer r = Some x"
      and a': "a' = (if k = mounts a then ?a0\<lparr>form := onAsk_settled x (form a)\<rparr> else ?a0)"
      by auto
    show ?thesis
    proof (cases "k = mounts a")
      case True
      then have "snd (inflight a ! i) = Review (mounts a)" using p k by simp
      from inv_settle_own(2)[OF assms(1) i this, of "onAsk_settled x (form a)"]
      show ?thesis using a' True by (cases x) (auto simp: onAsk_settled_def)
    next
      case False
      then have "snd (inflight a ! i) \<noteq> Review (mounts a)" using p k by simp
      from inv_settle_plain[OF assms(1) i g this, of "page a"]
      show ?thesis using a' False by simp
    qed
  qed
qed


lemma inv_initial: "page_invariant initial_app"
  by (simp add: page_invariant_def initial_app_def initial_wizard_def initial_review_def
      guarded_inflight_def own_asks_inflight_def)

lemma inv_on_page_edit:
  assumes "page_invariant a" and "on_page f a = Next a'"
    and "loading (f (page a)) = loading (page a)"
    and "activeStep (f (page a)) = activeStep (page a)"
    and "agent (f (page a)) = agent (page a)"
  shows "page_invariant a'"
proof -
  from assms(2) have a': "a' = commit (activeStep (page a)) False (a\<lparr>page := f (page a)\<rparr>)"
    by simp
  show ?thesis
    unfolding a' by (rule inv_commit, rule inv_page[OF assms(1,3-5)]) (simp add: assms)
qed

lemma inv_on_page_back:
  assumes "page_invariant a" and "on_page f a = Next a'"
    and "\<not> loading (page a)"
    and "\<not> loading (f (page a))"
    and "activeStep (f (page a)) \<noteq> str ''metadata'' \<longrightarrow> agent (f (page a)) \<noteq> None"
  shows "page_invariant a'"
proof -
  from assms(2) have a': "a' = commit (activeStep (page a)) False (a\<lparr>page := f (page a)\<rparr>)"
    by simp
  show ?thesis
    unfolding a' by (rule inv_commit, rule inv_idle_page[OF assms(1,3-5)]) (simp add: assms)
qed

lemma inv_form:
  assumes "page_invariant a" and "qaLoading r = qaLoading (form a)"
  shows "page_invariant (a\<lparr>form := r\<rparr>)"
  using assms by (simp add: page_invariant_def guarded_inflight_def own_asks_inflight_def)

lemma inv_ask:
  assumes "page_invariant a" and "\<not> qaLoading (form a)" and "qaLoading r" and "is_ask c"
  shows "page_invariant (a\<lparr>form := r, inflight := inflight a @ [(c, Review (mounts a))]\<rparr>)"
  using assms
  by (cases c) (auto simp: page_invariant_def guarded_inflight_def own_asks_inflight_def)

lemma inv_step:
  assumes "page_invariant a" and f: "step e a = Next a'"
  shows "page_invariant a'"
proof (cases e)
  case (SetName v)
  with f obtain g where "on_page g a = Next a'" and "loading (g (page a)) = loading (page a)"
    and "activeStep (g (page a)) = activeStep (page a)" and "agent (g (page a)) = agent (page a)"
    by (fastforce split: if_splits)
  with assms(1) show ?thesis by (rule inv_on_page_edit)
next
  case (SetDescription v)
  with f obtain g where "on_page g a = Next a'" and "loading (g (page a)) = loading (page a)"
    and "activeStep (g (page a)) = activeStep (page a)" and "agent (g (page a)) = agent (page a)"
    by (fastforce split: if_splits)
  with assms(1) show ?thesis by (rule inv_on_page_edit)
next
  case (SetPurpose v)
  with f obtain g where "on_page g a = Next a'" and "loading (g (page a)) = loading (page a)"
    and "activeStep (g (page a)) = activeStep (page a)" and "agent (g (page a)) = agent (page a)"
    by (fastforce split: if_splits)
  with assms(1) show ?thesis by (rule inv_on_page_edit)
next
  case (SetModel v)
  with f obtain g where "on_page g a = Next a'" and "loading (g (page a)) = loading (page a)"
    and "activeStep (g (page a)) = activeStep (page a)" and "agent (g (page a)) = agent (page a)"
    by (fastforce split: if_splits)
  with assms(1) show ?thesis by (rule inv_on_page_edit)
next
  case SubmitMetadata
  with f have st: "activeStep (page a) = str ''metadata''" and l: "\<not> loading (page a)"
    and a': "a' = submit (apsnd Some (handleCreateAgent (page a))) a"
    by (auto simp: metadata_next_disabled_def split: if_splits)
  show ?thesis
    unfolding a' submit_def handleCreateAgent_def
    using inv_issue[OF assms(1) l, of "(page a)\<lparr>error := JStr [], loading := True\<rparr>"
        "CreateAgent (metadataForm (page a))"] st
    by simp
next
  case (ToggleTool t)
  with f obtain g where "on_page g a = Next a'" and "loading (g (page a)) = loading (page a)"
    and "activeStep (g (page a)) = activeStep (page a)" and "agent (g (page a)) = agent (page a)"
    by (fastforce split: if_splits)
  with assms(1) show ?thesis by (rule inv_on_page_edit)
next
  case BackFromTools
  with f have b: "on_page onBack_tools a = Next a'" and l: "\<not> loading (page a)"
    by (simp_all split: if_splits)
  show ?thesis
    using l by (intro inv_on_page_back[OF assms(1) b]) (simp_all add: onBack_tools_def)
next
  case SubmitTools
  with f have st: "activeStep (page a) = str ''tools''" and l: "\<not> loading (page a)"
    and a': "a' = submit (handleSaveTools (page a)) a"
    by (auto split: if_splits)
  show ?thesis
  proof (cases "agent (page a)")
    case None
    then show ?thesis
      unfolding a' submit_def handleSaveTools_def
      using inv_page[OF assms(1), of "(page a)\<lparr>error :=
        JStr (str ''Agent not created. Please go back to Metadata step and create the agent first.'')\<rparr>"]
      by simp
  next
    case (Some ag)
    then show ?thesis
      unfolding a' submit_def handleSaveTools_def
      using inv_issue[OF assms(1) l, of "(page a)\<lparr>error := JStr [], loading := True\<rparr>"
          "SetAgentTools (Agent_id ag) (selectedToolIds (page a))"] st
      by simp
  qed
next
  case (SetFrequencyLimit v)
  with f obtain g where "on_page g a = Next a'" and "loading (g (page a)) = loading (page a)"
    and "activeStep (g (page a)) = activeStep (page a)" and "agent (g (page a)) = agent (page a)"
    by (fastforce split: if_splits)
  with assms(1) show ?thesis by (rule inv_on_page_edit)
next
  case (SetRequireApproval b)
  with f obtain g where "on_page g a = Next a'" and "loading (g (page a)) = loading (page a)"
    and "activeStep (g (page a)) = activeStep (page a)" and "agent (g (page a)) = agent (page a)"
    by (fastforce split: if_splits)
  with assms(1) show ?thesis by (rule inv_on_page_edit)
next
  case BackFromPolicies
  with f have b: "on_page onBack_policies a = Next a'" and l: "\<not> loading (page a)"
    and s: "activeStep (page a) = str ''policies''"
    by (simp_all split: if_splits)
  show ?thesis
    using l s inv_agent[OF assms(1)]
    by (intro inv_on_page_back[OF assms(1) b]) (simp_all add: onBack_policies_def)
next
  case SubmitPolicy
  with f have st: "activeStep (page a) = str ''policies''" and l: "\<not> loading (page a)"
    and a': "a' = submit (handleSavePolicy (page a)) a"
    by (auto split: if_splits)
  have e: "\<And>m. page_invariant (a\<lparr>page := (page a)\<lparr>error := m\<rparr>\<rparr>)"
    using inv_page[OF assms(1)] by simp
  show ?thesis
  proof (cases "snd (handleSavePolicy (page a))")
    case None
    then show ?thesis
      unfolding a' submit_def using e
      by (auto simp: handleSavePolicy_def split: option.splits if_splits)
  next
    case (Some c)
    then obtain ag where "agent (page a) = Some ag"
      and "handleSavePolicy (page a) =
             ((page a)\<lparr>error := JStr [], loading := True\<rparr>, Some (SetPolicy (Agent_id ag) (policyForm (page a))))"
      by (auto simp: handleSavePolicy_def split: option.splits if_splits)
    then show ?thesis
      unfolding a' submit_def
      using inv_issue[OF assms(1) l, of "(page a)\<lparr>error := JStr [], loading := True\<rparr>"
          "SetPolicy (Agent_id ag) (policyForm (page a))"] st
      by simp
  qed
next
  case (SetQuestion v)
  with f assms(1) show ?thesis
    by (auto split: if_splits intro!: inv_form simp: onChange_question_def)
next
  case Ask
  with f have c: "canAsk (agentDefinition (page a)) (form a)"
    and a': "a' = (case onAsk (agentDefinition (page a)) (form a) of
              (r, None) \<Rightarrow> a\<lparr>form := r\<rparr>
            | (r, Some c) \<Rightarrow> a\<lparr>form := r, inflight := inflight a @ [(c, Review (mounts a))]\<rparr>)"
    by (auto split: if_splits prod.splits option.splits)
  from c have q: "\<not> qaLoading (form a)" and t: "truthy (agentId (agentDefinition (page a)))"
    by (simp_all add: canAsk_def)
  show ?thesis
    unfolding a' onAsk_def using t inv_ask[OF assms(1) q] by simp
next
  case BackFromReview
  with f have b: "on_page onBack_review a = Next a'" and l: "\<not> loading (page a)"
    and s: "activeStep (page a) = str ''review''"
    by (simp_all split: if_splits)
  show ?thesis
    using l s inv_agent[OF assms(1)]
    by (intro inv_on_page_back[OF assms(1) b]) (simp_all add: onBack_review_def)
next
  case (Settle i r)
  with f assms(1) show ?thesis
    by (auto split: if_splits intro: inv_settled)
qed

lemma inv_fire: "page_invariant a \<Longrightarrow> fire e a = Some a' \<Longrightarrow> page_invariant a'"
  by (simp add: fire_Some inv_step)

lemma inv_run: "page_invariant a \<Longrightarrow> run es a = Some a' \<Longrightarrow> page_invariant a'"
proof (induction es arbitrary: a)
  case Nil
  then show ?case by simp
next
  case (Cons e es)
  then show ?case by (auto split: option.splits dest: inv_fire)
qed

lemma inv_reachable: "run es initial_app = Some a \<Longrightarrow> page_invariant a"
  using inv_run[OF inv_initial] .

lemma the_run:
  assumes "map_option f (run es s) = Some y"
  shows "run es s = Some (the (run es s))" and "f (the (run es s)) = y"
  using assms by (cases "run es s"; simp)+

lemma commit_same: "activeStep (page a) = p \<Longrightarrow> commit p False a = a"
  by (simp add: commit_def)

lemma next_step_simps:
  "next_step (str ''metadata'') = Some (str ''tools'')"
  "next_step (str ''tools'') = Some (str ''policies'')"
  "next_step (str ''policies'') = Some (str ''review'')"
  "next_step (str ''review'') = None"
  by (simp_all add: next_step_def steps_def)

lemma previous_step_simps:
  "previous_step (str ''metadata'') = None"
  "previous_step (str ''tools'') = Some (str ''metadata'')"
  "previous_step (str ''policies'') = Some (str ''tools'')"
  "previous_step (str ''review'') = Some (str ''policies'')"
  by (simp_all add: previous_step_def steps_def)

lemma guarded_home:
  assumes "run es initial_app = Some a" and "i < length (inflight a)"
    and "guarded (fst (inflight a ! i))"
  shows "activeStep (page a) = home (fst (inflight a ! i))"
  using inv_settle_guarded(2)[OF inv_reachable[OF assms(1)] assms(2,3)] by simp

lemma commit_error:
  "error (page (commit p n a)) = error (page a) \<or> error (page (commit p n a)) = JStr []"
  by (simp add: commit_def Let_def split_beta useEffect_def fetchTools_def fetchSelectedTools_def
      fetchDefinition_def split: option.splits)

lemma commit_clicked:
  "clicked_inflight (commit p n a) = clicked_inflight a"
  by (simp add: clicked_inflight_def commit_inflight filter_fst_map_Page useEffect_calls
      split: option.splits)

lemma fire_simps [simp]:
  "fire SubmitMetadata a =
     (if activeStep (page a) = str ''metadata'' \<and>
         \<not> metadata_next_disabled (isMetadataValid (metadataForm (page a))) (loading (page a))
      then Some (submit (apsnd Some (handleCreateAgent (page a))) a) else None)"
  "fire SubmitTools a =
     (if activeStep (page a) = str ''tools'' \<and> \<not> loading (page a)
      then Some (submit (handleSaveTools (page a)) a) else None)"
  "fire SubmitPolicy a =
     (if activeStep (page a) = str ''policies'' \<and> \<not> loading (page a)
      then Some (submit (handleSavePolicy (page a)) a) else None)"
  "fire (SetQuestion v) a =
     (if activeStep (page a) = str ''review'' \<and> truthy (agentId (agentDefinition (page a)))
      then Some (a\<lparr>form := onChange_question v (form a)\<rparr>) else None)"
  "fire Ask a =
     (if activeStep (page a) = str ''review'' \<and> agentDefinition (page a) \<noteq> None \<and>
         canAsk (agentDefinition (page a)) (form a)
      then (case onAsk (agentDefinition (page a)) (form a) of
              (r, None) \<Rightarrow> Some (a\<lparr>form := r\<rparr>)
            | (r, Some c) \<Rightarrow>
                Some (a\<lparr>form := r, inflight := inflight a @ [(c, Review (mounts a))]\<rparr>))
      else None)"
  by (simp_all add: fire_def fire_of_def split: prod.splits option.splits)

lemma fire_back:
  "fire BackFromTools a =
     (if activeStep (page a) = str ''tools'' \<and> \<not> loading (page a) \<and>
         \<not> render_throws (onBack_tools (page a))
      then Some (commit (str ''tools'') False (a\<lparr>page := onBack_tools (page a)\<rparr>)) else None)"
  "fire BackFromPolicies a =
     (if activeStep (page a) = str ''policies'' \<and> \<not> loading (page a) \<and>
         \<not> render_throws (onBack_policies (page a))
      then Some (commit (str ''policies'') False (a\<lparr>page := onBack_policies (page a)\<rparr>))
      else None)"
  "fire BackFromReview a =
     (if activeStep (page a) = str ''review'' \<and> \<not> loading (page a) \<and>
         \<not> render_throws (onBack_review (page a))
      then Some (commit (str ''review'') False (a\<lparr>page := onBack_review (page a)\<rparr>))
      else None)"
  by (simp_all add: fire_def fire_of_def on_page_def rerender_def)

lemma unmounts_fire: "unmounts e a \<Longrightarrow> fire e a = None"
  by (simp add: unmounts_def fire_def fire_of_def split: outcome.splits)

lemma steps_keys:
  "set (map fst steps) = {str ''metadata'', str ''tools'', str ''policies'', str ''review''}"
  "fst ` set steps = {str ''metadata'', str ''tools'', str ''policies'', str ''review''}"
  by (simp_all add: steps_def)

lemma renders_commit: "page_renders a \<Longrightarrow> page_renders (commit p n a)"
  using commit_error[of p n a] by (auto simp: page_renders_def)

lemma renders_page_update:
  assumes "\<not> render_throws w" and "activeStep w \<in> set (map fst steps)"
  shows "page_renders (commit p n (a\<lparr>page := w\<rparr>))"
  by (rule renders_commit) (use assms in \<open>simp add: page_renders_def render_throws_def\<close>)

lemma renders_rerender:
  assumes "rerender n f a = Next a'" and "activeStep (f (page a)) \<in> set (map fst steps)"
  shows "page_renders a'"
proof -
  from assms(1) have t: "\<not> render_throws (f (page a))"
    and a': "a' = commit (activeStep (page a)) n (a\<lparr>page := f (page a)\<rparr>)"
    by simp_all
  from t assms(2) have "page_renders (a\<lparr>page := f (page a)\<rparr>)"
    by (simp add: page_renders_def render_throws_def)
  then show ?thesis unfolding a' by (rule renders_commit)
qed

lemma renders_settled:
  assumes "page_renders a" and "settled p r a = Next a'"
  shows "page_renders a'"
proof -
  obtain c ow where p: "p = (c, ow)" by (cases p)
  have k: "activeStep (page a) \<in> set (map fst steps)"
    using assms(1) by (simp add: page_renders_def)
  show ?thesis
  proof (cases c)
    case (CreateAgent f)
    with assms(2) p obtain x where "rerender (\<not> isl x) (handleCreateAgent_settled x) a = Next a'"
      by auto
    then show ?thesis
      by (rule renders_rerender)
         (use k in \<open>cases x; simp add: handleCreateAgent_settled_def steps_keys\<close>)
  next
    case GetTools
    with assms(2) p obtain x where "rerender False (fetchTools_settled x) a = Next a'"
      by (auto simp: on_page_def)
    then show ?thesis
      by (rule renders_rerender) (use k in \<open>cases x; simp add: fetchTools_settled_def\<close>)
  next
    case (SetAgentTools n ids)
    with assms(2) p obtain x where "rerender False (handleSaveTools_settled x) a = Next a'"
      by (auto simp: on_page_def)
    then show ?thesis
      by (rule renders_rerender)
         (use k in \<open>cases x; simp add: handleSaveTools_settled_def steps_keys\<close>)
  next
    case (GetAgentTools n)
    with assms(2) p obtain x where "rerender False (fetchSelectedTools_settled x) a = Next a'"
      by (auto simp: on_page_def)
    then show ?thesis
      by (rule renders_rerender) (use k in \<open>cases x; simp add: fetchSelectedTools_settled_def\<close>)
  next
    case (SetPolicy n f)
    with assms(2) p obtain x where "rerender False (handleSavePolicy_settled x) a = Next a'"
      by (auto simp: on_page_def)
    then show ?thesis
      by (rule renders_rerender)
         (use k in \<open>cases x; simp add: handleSavePolicy_settled_def steps_keys\<close>)
  next
    case (GetDefinition n)
    with assms(2) p obtain x where "rerender False (fetchDefinition_settled x) a = Next a'"
      by (auto simp: on_page_def)
    then show ?thesis
      by (rule renders_rerender) (use k in \<open>cases x; simp add: fetchDefinition_settled_def\<close>)
  next
    case (AskAgent n q)
    with assms(2) p have "page a' = page a"
      by (cases ow) (auto split: if_splits)
    then show ?thesis using assms(1) by (simp add: page_renders_def)
  qed
qed

lemma renders_submit:
  assumes "page_renders a" and "activeStep w = activeStep (page a)" and "valid_child (error w)"
  shows "page_renders (submit (w, c) a)"
  using assms by (cases c) (simp_all add: submit_def page_renders_def)

lemma renders_step:
  assumes "page_renders a" and f: "step e a = Next a'"
  shows "page_renders a'"
proof -
  have k: "activeStep (page a) \<in> set (map fst steps)"
    using assms(1) by (simp add: page_renders_def)
  have edit: "page_renders a'"
    if "on_page g a = Next a'" and "activeStep (g (page a)) = activeStep (page a)" for g
  proof -
    from that(1) have t: "\<not> render_throws (g (page a))"
      and a': "a' = commit (activeStep (page a)) False (a\<lparr>page := g (page a)\<rparr>)"
      by simp_all
    show ?thesis
      unfolding a' using t k that(2) by (intro renders_page_update) simp_all
  qed
  have leave: "page_renders a'"
    if "on_page g a = Next a'" and "activeStep (g (page a)) \<in> set (map fst steps)" for g
  proof -
    from that(1) have t: "\<not> render_throws (g (page a))"
      and a': "a' = commit (activeStep (page a)) False (a\<lparr>page := g (page a)\<rparr>)"
      by simp_all
    show ?thesis
      unfolding a' using t that(2) by (intro renders_page_update)
  qed
  show ?thesis
  proof (cases e)
    case (SetName v)
    with f obtain g where "on_page g a = Next a'"
      and "activeStep (g (page a)) = activeStep (page a)"
      by (fastforce split: if_splits)
    then show ?thesis by (rule edit)
  next
    case (SetDescription v)
    with f obtain g where "on_page g a = Next a'"
      and "activeStep (g (page a)) = activeStep (page a)"
      by (fastforce split: if_splits)
    then show ?thesis by (rule edit)
  next
    case (SetPurpose v)
    with f obtain g where "on_page g a = Next a'"
      and "activeStep (g (page a)) = activeStep (page a)"
      by (fastforce split: if_splits)
    then show ?thesis by (rule edit)
  next
    case (SetModel v)
    with f obtain g where "on_page g a = Next a'"
      and "activeStep (g (page a)) = activeStep (page a)"
      by (fastforce split: if_splits)
    then show ?thesis by (rule edit)
  next
    case SubmitMetadata
    with f have "a' = submit ((page a)\<lparr>error := JStr [], loading := True\<rparr>,
                              Some (CreateAgent (metadataForm (page a)))) a"
      by (simp add: handleCreateAgent_def split: if_splits)
    then show ?thesis using assms(1) by (simp add: renders_submit)
  next
    case (ToggleTool t)
    with f obtain g where "on_page g a = Next a'"
      and "activeStep (g (page a)) = activeStep (page a)"
      by (fastforce split: if_splits)
    then show ?thesis by (rule edit)
  next
    case BackFromTools
    with f have "on_page onBack_tools a = Next a'" by (simp split: if_splits)
    then show ?thesis by (rule leave) (simp add: onBack_tools_def steps_def)
  next
    case SubmitTools
    with f have a': "a' = submit (handleSaveTools (page a)) a" by (simp split: if_splits)
    show ?thesis
      unfolding a' using assms(1)
      by (cases "agent (page a)") (simp_all add: handleSaveTools_def renders_submit)
  next
    case (SetFrequencyLimit v)
    with f obtain g where "on_page g a = Next a'"
      and "activeStep (g (page a)) = activeStep (page a)"
      by (fastforce split: if_splits)
    then show ?thesis by (rule edit)
  next
    case (SetRequireApproval b)
    with f obtain g where "on_page g a = Next a'"
      and "activeStep (g (page a)) = activeStep (page a)"
      by (fastforce split: if_splits)
    then show ?thesis by (rule edit)
  next
    case BackFromPolicies
    with f have "on_page onBack_policies a = Next a'" by (simp split: if_splits)
    then show ?thesis by (rule leave) (simp add: onBack_policies_def steps_def)
  next
    case SubmitPolicy
    with f have a': "a' = submit (handleSavePolicy (page a)) a" by (simp split: if_splits)
    show ?thesis
      unfolding a' using assms(1)
      by (cases "agent (page a)") (simp_all add: handleSavePolicy_def renders_submit)
  next
    case (SetQuestion v)
    with f have "page a' = page a" by (auto split: if_splits)
    then show ?thesis using assms(1) by (simp add: page_renders_def)
  next
    case Ask
    with f have "page a' = page a" by (auto split: if_splits prod.splits option.splits)
    then show ?thesis using assms(1) by (simp add: page_renders_def)
  next
    case BackFromReview
    with f have "on_page onBack_review a = Next a'" by (simp split: if_splits)
    then show ?thesis by (rule leave) (simp add: onBack_review_def steps_def)
  next
    case (Settle i r)
    with f have "settled (inflight a ! i) r
                   (a\<lparr>inflight := take i (inflight a) @ drop (Suc i) (inflight a)\<rparr>) = Next a'"
      by (simp split: if_splits)
    moreover have "page_renders (a\<lparr>inflight := take i (inflight a) @ drop (Suc i) (inflight a)\<rparr>)"
      using assms(1) by (simp add: page_renders_def)
    ultimately show ?thesis by (rule renders_settled[rotated])
  qed
qed

lemma renders_run: "page_renders a \<Longrightarrow> run es a = Some a' \<Longrightarrow> page_renders a'"
proof (induction es arbitrary: a)
  case Nil
  then show ?case by simp
next
  case (Cons e es)
  then show ?case by (auto split: option.splits simp: fire_Some dest: renders_step)
qed

lemma renders_initial: "page_renders initial_app"
  by (simp add: page_renders_def initial_app_def initial_wizard_def steps_keys)

lemma renders_reachable: "run es initial_app = Some a \<Longrightarrow> page_renders a"
  using renders_run[OF renders_initial] .

section \<open>The claims\<close>

text \<open>
  C1: the \<open>createAgent\<close> call is rejected with a validation error, whose detail is a list
  of objects. \<open>handleCreateAgent\<close> stores that list in \<open>error\<close> as it is
  (\<^verbatim>\<open>detail ?? fallback\<close>), the render of the banner throws and the page is unmounted:
  there is no next state and no message is displayed. Rejected with the empty string as
  detail, the page stays on the step with \<open>error\<close> empty and no banner. \<open>onAsk\<close> in
  ReviewStep, given the same two rejections, shows a string both times
  (\<^verbatim>\<open>String(detail || message || fallback)\<close>).
\<close>

theorem create_agent_rejected:
  "run to_create_pending initial_app = Some at_create_pending \<and>
   map fst (inflight at_create_pending) = [CreateAgent demo_form] \<and>
   Some (error (handleCreateAgent_settled (Inl validation_failure) (page at_create_pending))) =
     detail validation_failure \<and>
   unmounts (Settle 0 (Inl validation_failure)) at_create_pending \<and>
   fire (Settle 0 (Inl validation_failure)) at_create_pending = None \<and>
   map_option (\<lambda>a. (activeStep (page a), error (page a), banner (page a)))
     (fire (Settle 0 (Inl empty_detail_failure)) at_create_pending) =
     Some (str ''metadata'', JStr [], None) \<and>
   qa_banner (onAsk_settled (Inl validation_failure) initial_review) =
     Some (str ''[object Object]'') \<and>
   qa_banner (onAsk_settled (Inl empty_detail_failure) initial_review) =
     Some (str ''Request failed with status code 400'')"
proof -
  have e: "map_option (\<lambda>a. map fst (inflight a)) (run to_create_pending initial_app) =
           Some [CreateAgent demo_form]"
    by code_simp
  note r = the_run(1)[OF e, folded at_create_pending_def]
    and f = the_run(2)[OF e, folded at_create_pending_def]
  have d: "Some (error (handleCreateAgent_settled (Inl validation_failure) (page at_create_pending))) =
           detail validation_failure"
    by (simp add: handleCreateAgent_settled_def coalesce_def validation_failure_def)
  have u: "unmounts (Settle 0 (Inl validation_failure)) at_create_pending"
    by code_simp
  have m: "map_option (\<lambda>a. (activeStep (page a), error (page a), banner (page a)))
     (fire (Settle 0 (Inl empty_detail_failure)) at_create_pending) =
     Some (str ''metadata'', JStr [], None)"
    by code_simp
  have q: "qa_banner (onAsk_settled (Inl validation_failure) initial_review) =
     Some (str ''[object Object]'')"
    "qa_banner (onAsk_settled (Inl empty_detail_failure) initial_review) =
     Some (str ''Request failed with status code 400'')"
    by code_simp+
  from r f d u unmounts_fire[OF u] m q show ?thesis by (intro conjI)
qed

text \<open>
  C2: the metadata form is valid exactly when the trimmed name is not empty, the trimmed
  description has at least 10 code units, the trimmed purpose at least 5 and the trimmed
  model is not empty; the Next button is disabled exactly when the form is not valid or
  \<open>loading\<close> is set.
\<close>

theorem metadata_button:
  "(isMetadataValid f \<longleftrightarrow>
      trim (name f) \<noteq> [] \<and> 10 \<le> length (trim (description f)) \<and>
      5 \<le> length (trim (purpose f)) \<and> trim (model f) \<noteq> []) \<and>
   (metadata_next_disabled (isMetadataValid f) l \<longleftrightarrow> \<not> isMetadataValid f \<or> l) \<and>
   (activeStep (page a) = str ''metadata'' \<longrightarrow>
      (fire SubmitMetadata a = None \<longleftrightarrow>
         \<not> isMetadataValid (metadataForm (page a)) \<or> loading (page a)))"
  by (auto simp: isMetadataValid_def metadata_next_disabled_def)

theorem metadata_button_witness:
  "isMetadataValid demo_form \<and> \<not> metadata_next_disabled (isMetadataValid demo_form) False \<and>
   activeStep (page initial_app) = str ''metadata'' \<and> fire SubmitMetadata initial_app = None \<and>
   \<not> isMetadataValid (metadataForm (page initial_app))"
proof -
  have v: "isMetadataValid demo_form" by code_simp
  have s: "activeStep (page initial_app) = str ''metadata''" by code_simp
  have n: "\<not> isMetadataValid (metadataForm (page initial_app))" by code_simp
  from metadata_button[of demo_form False initial_app] v s n show ?thesis by simp
qed

text \<open>After Next is pressed the form is still valid, and the button is disabled.\<close>

theorem metadata_button_counterexample:
  "map_option (\<lambda>a. (isMetadataValid (metadataForm (page a)),
                     metadata_next_disabled (isMetadataValid (metadataForm (page a))) (loading (page a))))
     (run to_create_pending initial_app) = Some (True, True)"
  by code_simp

text \<open>
  C3: on the policies step of a reachable state, with the button enabled: when the
  frequency limit is a number \<open>\<le> 0\<close> and the approval-without-tools warning does not
  apply, submitting sets \<open>error\<close> to the frequency message and changes nothing else (no
  call is issued); when the limit is null or positive, \<open>error\<close> is not set to that
  message, and the \<open>setPolicy\<close> call is issued unless the warning applies.
\<close>

theorem frequency_limit_check:
  assumes "run es initial_app = Some a"
    and "activeStep (page a) = str ''policies''"
    and "\<not> loading (page a)"
  shows "(\<not> (require_approval_for_all_tool_calls (policyForm (page a)) \<and>
              selectedToolIds (page a) = []) \<and>
          (\<exists>n. frequency_limit (policyForm (page a)) = Some n \<and> n \<le> 0) \<longrightarrow>
            fire SubmitPolicy a =
              Some (a\<lparr>page := (page a)\<lparr>error :=
             JStr (str ''Frequency limit must be positive when provided.'')\<rparr>\<rparr>)) \<and>
         (frequency_limit (policyForm (page a)) = None \<or>
          (\<exists>n. frequency_limit (policyForm (page a)) = Some n \<and> 0 < n) \<longrightarrow>
            (\<exists>a'. fire SubmitPolicy a = Some a' \<and>
                  error (page a') \<noteq> JStr (str ''Frequency limit must be positive when provided.'') \<and>
                  (\<not> (require_approval_for_all_tool_calls (policyForm (page a)) \<and>
                       selectedToolIds (page a) = []) \<longrightarrow>
                   (\<exists>c. inflight a' = inflight a @ [(c, Page)] \<and>
                        (\<exists>i. c = SetPolicy i (policyForm (page a)))))))"
proof -
  have "agent (page a) \<noteq> None"
    using inv_agent[OF inv_reachable[OF assms(1)]] assms(2) by simp
  then obtain ag where "agent (page a) = Some ag" by auto
  then show ?thesis
    using assms(2,3) by (auto simp: handleSavePolicy_def submit_def)
qed

theorem frequency_limit_check_witness:
  "run (to_policies @ [SetFrequencyLimit (Some 0)]) initial_app = Some at_zero_limit \<and>
   (activeStep (page at_zero_limit), loading (page at_zero_limit),
    frequency_limit (policyForm (page at_zero_limit)),
    require_approval_for_all_tool_calls (policyForm (page at_zero_limit))) =
     (str ''policies'', False, Some 0, False) \<and>
   fire SubmitPolicy at_zero_limit =
     Some (at_zero_limit\<lparr>page := (page at_zero_limit)\<lparr>error :=
             JStr (str ''Frequency limit must be positive when provided.'')\<rparr>\<rparr>) \<and>
   run (to_policies @ [SetFrequencyLimit (Some 5)]) initial_app = Some at_limit_five \<and>
   (activeStep (page at_limit_five), loading (page at_limit_five),
    frequency_limit (policyForm (page at_limit_five)),
    require_approval_for_all_tool_calls (policyForm (page at_limit_five))) =
     (str ''policies'', False, Some 5, False) \<and>
   (\<exists>a'. fire SubmitPolicy at_limit_five = Some a' \<and>
         error (page a') \<noteq> JStr (str ''Frequency limit must be positive when provided.'') \<and>
         (\<exists>c. inflight a' = inflight at_limit_five @ [(c, Page)] \<and>
              (\<exists>i. c = SetPolicy i (policyForm (page at_limit_five)))))"
proof -
  let ?f = "\<lambda>a. (activeStep (page a), loading (page a), frequency_limit (policyForm (page a)),
                 require_approval_for_all_tool_calls (policyForm (page a)))"
  have ea: "map_option ?f (run (to_policies @ [SetFrequencyLimit (Some 0)]) initial_app) =
            Some (str ''policies'', False, Some 0, False)"
    by code_simp
  have eb: "map_option ?f (run (to_policies @ [SetFrequencyLimit (Some 5)]) initial_app) =
            Some (str ''policies'', False, Some 5, False)"
    by code_simp
  note ra = the_run(1)[OF ea, folded at_zero_limit_def]
    and fa = the_run(2)[OF ea, folded at_zero_limit_def]
  note rb = the_run(1)[OF eb, folded at_limit_five_def]
    and fb = the_run(2)[OF eb, folded at_limit_five_def]
  have A: "fire SubmitPolicy at_zero_limit =
     Some (at_zero_limit\<lparr>page := (page at_zero_limit)\<lparr>error :=
             JStr (str ''Frequency limit must be positive when provided.'')\<rparr>\<rparr>)"
    using frequency_limit_check[OF ra] fa by simp
  have B: "\<exists>a'. fire SubmitPolicy at_limit_five = Some a' \<and>
         error (page a') \<noteq> JStr (str ''Frequency limit must be positive when provided.'') \<and>
         (\<exists>c. inflight a' = inflight at_limit_five @ [(c, Page)] \<and>
              (\<exists>i. c = SetPolicy i (policyForm (page at_limit_five))))"
    using frequency_limit_check[OF rb] fb by simp
  from ra fa A rb fb B show ?thesis by (intro conjI)
qed

text \<open>
  With limit 0, approval for all tool calls and no tool selected, the earlier guard
  answers: the error is the warning, not the frequency message.
\<close>

theorem frequency_limit_check_counterexample:
  "map_option (\<lambda>a. (frequency_limit (policyForm (page a)), error (page a),
                     error (page a) = JStr (str ''Frequency limit must be positive when provided.'')))
     (run (to_policies @ [SetFrequencyLimit (Some 0), SetRequireApproval True, SubmitPolicy])
        initial_app) =
   Some (Some 0,
         JStr (str ''Agent has no tools and all tool calls require approval - this agent will be unusable.''),
         False)"
  by code_simp

text \<open>
  C4: on the policies step of a reachable state, with the button enabled, when approval
  is required for all tool calls and no tool is selected, submitting sets \<open>error\<close> to the
  warning that the agent will be unusable, which the banner shows; nothing else changes:
  no call is issued and the step stays \<^verbatim>\<open>"policies"\<close>.
\<close>

theorem approval_without_tools:
  assumes "run es initial_app = Some a"
    and "activeStep (page a) = str ''policies''"
    and "\<not> loading (page a)"
    and "require_approval_for_all_tool_calls (policyForm (page a))"
    and "selectedToolIds (page a) = []"
  shows "fire SubmitPolicy a =
           Some (a\<lparr>page := (page a)\<lparr>error :=
             JStr (str ''Agent has no tools and all tool calls require approval - this agent will be unusable.'')\<rparr>\<rparr>) \<and>
         (\<forall>a'. fire SubmitPolicy a = Some a' \<longrightarrow>
            banner (page a') =
              Some (JStr (str ''Agent has no tools and all tool calls require approval - this agent will be unusable.'')) \<and>
            inflight a' = inflight a \<and> activeStep (page a') = str ''policies'')"
proof -
  have "agent (page a) \<noteq> None"
    using inv_agent[OF inv_reachable[OF assms(1)]] assms(2) by simp
  then obtain ag where "agent (page a) = Some ag" by auto
  then show ?thesis
    using assms(2-5) by (auto simp: handleSavePolicy_def submit_def banner_def)
qed

theorem approval_without_tools_witness:
  "run (to_policies @ [SetRequireApproval True]) initial_app = Some at_approval_without_tools \<and>
   (activeStep (page at_approval_without_tools), loading (page at_approval_without_tools),
    require_approval_for_all_tool_calls (policyForm (page at_approval_without_tools)),
    selectedToolIds (page at_approval_without_tools)) = (str ''policies'', False, True, []) \<and>
   fire SubmitPolicy at_approval_without_tools =
     Some (at_approval_without_tools\<lparr>page := (page at_approval_without_tools)\<lparr>error :=
             JStr (str ''Agent has no tools and all tool calls require approval - this agent will be unusable.'')\<rparr>\<rparr>)"
proof -
  have e: "map_option (\<lambda>a. (activeStep (page a), loading (page a),
                     require_approval_for_all_tool_calls (policyForm (page a)),
                     selectedToolIds (page a)))
     (run (to_policies @ [SetRequireApproval True]) initial_app) =
   Some (str ''policies'', False, True, [])"
    by code_simp
  note r = the_run(1)[OF e, folded at_approval_without_tools_def]
    and f = the_run(2)[OF e, folded at_approval_without_tools_def]
  have "fire SubmitPolicy at_approval_without_tools =
     Some (at_approval_without_tools\<lparr>page := (page at_approval_without_tools)\<lparr>error :=
             JStr (str ''Agent has no tools and all tool calls require approval - this agent will be unusable.'')\<rparr>\<rparr>)"
    using approval_without_tools[OF r] f by simp
  with r f show ?thesis by (intro conjI)
qed




text \<open>
  C6: selecting appends the id and deselecting filters it out; for an id not in the
  list, deselecting after selecting gives the list back and deselecting alone changes
  nothing; deselecting twice is deselecting once; an id is checked exactly when it is in
  the list.
\<close>

theorem tool_toggle:
  "(t \<notin> set l \<longrightarrow> onChange_tool (onChange_tool l t True) t False = l) \<and>
   (t \<notin> set l \<longrightarrow> onChange_tool l t False = l) \<and>
   onChange_tool (onChange_tool l t False) t False = onChange_tool l t False \<and>
   onChange_tool l t True = l @ [t] \<and>
   set (onChange_tool l t False) = set l - {t} \<and>
   (checked l t \<longleftrightarrow> t \<in> set l) \<and>
   checked (onChange_tool l t True) t \<and>
   \<not> checked (onChange_tool l t False) t"
  by (auto simp: onChange_tool_def checked_def filter_id_conv)

theorem tool_toggle_witness:
  "(3::int) \<notin> set [1, 2] \<and> onChange_tool (onChange_tool [1, 2] 3 True) 3 False = [1, 2] \<and>
   onChange_tool [1, 2] 3 False = [1, 2] \<and> onChange_tool [1, 2] 3 True = [1, 2, 3]"
  using tool_toggle[of 3 "[1, 2]"] by (simp add: onChange_tool_def)

text \<open>
  C7: in every state the page can reach, at most one call guarded by \<open>loading\<close> (create
  agent, save tools, save policy, fetch definition) is in flight, and \<open>loading\<close> is set
  exactly while one is; likewise \<open>qaLoading\<close> is set exactly while a question of the
  mounted ReviewStep is in flight. While \<open>loading\<close> is set the submit and Back buttons
  cannot be pressed, and while \<open>qaLoading\<close> is set Ask cannot. The handlers of guarded
  calls set \<open>loading\<close> when they issue the call; \<open>fetchTools\<close> and \<open>fetchSelectedTools\<close>
  leave it as it is.
\<close>

theorem one_guarded_call:
  assumes "run es initial_app = Some a"
  shows "guarded_inflight a = (if loading (page a) then 1 else 0) \<and>
         own_asks_inflight a = (if qaLoading (form a) then 1 else 0) \<and>
         (loading (page a) \<longrightarrow>
            fire SubmitMetadata a = None \<and> fire SubmitTools a = None \<and>
            fire SubmitPolicy a = None \<and> fire BackFromTools a = None \<and>
            fire BackFromPolicies a = None \<and> fire BackFromReview a = None) \<and>
         (qaLoading (form a) \<longrightarrow> fire Ask a = None) \<and>
         loading (fst (handleCreateAgent w)) \<and>
         (snd (handleSaveTools w) \<noteq> None \<longrightarrow> loading (fst (handleSaveTools w))) \<and>
         (snd (handleSavePolicy w) \<noteq> None \<longrightarrow> loading (fst (handleSavePolicy w))) \<and>
         loading (fst (fetchDefinition n w)) \<and>
         loading (fst (fetchTools w)) = loading w \<and>
         loading (fst (fetchSelectedTools n w)) = loading w"
proof -
  have i: "page_invariant a" using assms by (rule inv_reachable)
  then have "guarded_inflight a = (if loading (page a) then 1 else 0)"
    and "own_asks_inflight a = (if qaLoading (form a) then 1 else 0)"
    by (simp_all add: page_invariant_def)
  moreover have "loading (page a) \<longrightarrow>
            fire SubmitMetadata a = None \<and> fire SubmitTools a = None \<and>
            fire SubmitPolicy a = None \<and> fire BackFromTools a = None \<and>
            fire BackFromPolicies a = None \<and> fire BackFromReview a = None"
    by (simp add: metadata_next_disabled_def fire_back)
  moreover have "qaLoading (form a) \<longrightarrow> fire Ask a = None"
    by (simp add: canAsk_def)
  moreover have "loading (fst (handleCreateAgent w))" "loading (fst (fetchDefinition n w))"
    "loading (fst (fetchTools w)) = loading w" "loading (fst (fetchSelectedTools n w)) = loading w"
    by (simp_all add: handleCreateAgent_def fetchDefinition_def fetchTools_def
        fetchSelectedTools_def)
  moreover have "snd (handleSaveTools w) \<noteq> None \<longrightarrow> loading (fst (handleSaveTools w))"
    by (simp add: handleSaveTools_def split: option.splits)
  moreover have "snd (handleSavePolicy w) \<noteq> None \<longrightarrow> loading (fst (handleSavePolicy w))"
    by (simp add: handleSavePolicy_def split: option.splits)
  ultimately show ?thesis by (intro conjI)
qed

theorem one_guarded_call_witness:
  "run to_create_pending initial_app = Some at_create_pending \<and>
   loading (page at_create_pending) \<and>
   guarded_inflight at_create_pending = 1 \<and>
   fire SubmitMetadata at_create_pending = None"
proof -
  have e: "map_option (\<lambda>a. loading (page a)) (run to_create_pending initial_app) = Some True"
    by code_simp
  note r = the_run(1)[OF e, folded at_create_pending_def]
    and f = the_run(2)[OF e, folded at_create_pending_def]
  from f have l: "loading (page at_create_pending)" by simp
  from one_guarded_call[OF r] l
  have "guarded_inflight at_create_pending = 1" "fire SubmitMetadata at_create_pending = None"
    by (simp_all del: fire_simps)
  with r l show ?thesis by (intro conjI)
qed

text \<open>
  A question is asked on the review step; while it is in flight Back leads to the
  policies step, where Next issues \<open>setPolicy\<close>: two calls started by button clicks are
  in flight together.
\<close>

theorem one_guarded_call_counterexample:
  "map_option (\<lambda>a. (clicked_inflight a, map fst (filter (\<lambda>p. clicked (fst p)) (inflight a))))
     (run to_overlap initial_app) =
   Some (2, [AskAgent 1 \<lparr>QA_question = str ''q'', QA_session_id = None\<rparr>,
             SetPolicy 1 \<lparr>frequency_limit = None, require_approval_for_all_tool_calls = False\<rparr>])"
  by code_simp

text \<open>
  C8: the whole effect of a Back press in a state the page can reach. From the tools
  step only \<open>activeStep\<close> changes. From the policies step \<open>activeStep\<close> changes and, when no
  tools are loaded, the effect starts \<open>fetchTools\<close>, which clears \<open>error\<close>. From the review
  step \<open>activeStep\<close> changes, the effect starts \<open>fetchSelectedTools\<close>, which clears \<open>error\<close>,
  and ReviewStep is unmounted, which discards its question, answer and error. In each
  case the new step is the one that precedes the old one, and the agent, the policy, the
  selected tool ids, the metadata and policy forms, the available tools, the definition
  and \<open>loading\<close> are as before, and no call in flight is dropped.
\<close>

theorem back_press:
  assumes "run es initial_app = Some a"
  shows "(activeStep (page a) = str ''tools'' \<and> \<not> loading (page a) \<longrightarrow>
            fire BackFromTools a = Some (a\<lparr>page := (page a)\<lparr>activeStep := str ''metadata''\<rparr>\<rparr>)) \<and>
         (activeStep (page a) = str ''policies'' \<and> \<not> loading (page a) \<longrightarrow>
            fire BackFromPolicies a =
              Some (if availableTools (page a) = []
                    then a\<lparr>page := (page a)\<lparr>activeStep := str ''tools'', error := JStr []\<rparr>,
                           inflight := inflight a @ [(GetTools, Page)]\<rparr>
                    else a\<lparr>page := (page a)\<lparr>activeStep := str ''tools''\<rparr>\<rparr>)) \<and>
         (activeStep (page a) = str ''review'' \<and> \<not> loading (page a) \<longrightarrow>
            (\<exists>ag. agent (page a) = Some ag \<and>
               fire BackFromReview a =
                 Some (a\<lparr>page := (page a)\<lparr>activeStep := str ''policies'', error := JStr []\<rparr>,
                         form := initial_review, mounts := Suc (mounts a),
                         inflight := inflight a @ [(GetAgentTools (Agent_id ag), Page)]\<rparr>))) \<and>
         previous_step (str ''tools'') = Some (str ''metadata'') \<and>
         previous_step (str ''policies'') = Some (str ''tools'') \<and>
         previous_step (str ''review'') = Some (str ''policies'') \<and>
         onBack_tools w = w\<lparr>activeStep := str ''metadata''\<rparr> \<and>
         onBack_policies w = w\<lparr>activeStep := str ''tools''\<rparr> \<and>
         onBack_review w = w\<lparr>activeStep := str ''policies''\<rparr>"
proof -
  have v: "valid_child (error (page a))"
    using renders_reachable[OF assms] by (simp add: page_renders_def)
  have t: "activeStep (page a) = str ''tools'' \<and> \<not> loading (page a) \<longrightarrow>
            fire BackFromTools a = Some (a\<lparr>page := (page a)\<lparr>activeStep := str ''metadata''\<rparr>\<rparr>)"
    using v
    by (simp add: fire_back render_throws_def onBack_tools_def commit_def useEffect_def
        split: option.splits)
  have p: "activeStep (page a) = str ''policies'' \<and> \<not> loading (page a) \<longrightarrow>
            fire BackFromPolicies a =
              Some (if availableTools (page a) = []
                    then a\<lparr>page := (page a)\<lparr>activeStep := str ''tools'', error := JStr []\<rparr>,
                           inflight := inflight a @ [(GetTools, Page)]\<rparr>
                    else a\<lparr>page := (page a)\<lparr>activeStep := str ''tools''\<rparr>\<rparr>)"
    using v
    by (simp add: fire_back render_throws_def onBack_policies_def commit_def useEffect_def
        fetchTools_def split: option.splits)
  have r: "activeStep (page a) = str ''review'' \<and> \<not> loading (page a) \<longrightarrow>
            (\<exists>ag. agent (page a) = Some ag \<and>
               fire BackFromReview a =
                 Some (a\<lparr>page := (page a)\<lparr>activeStep := str ''policies'', error := JStr []\<rparr>,
                         form := initial_review, mounts := Suc (mounts a),
                         inflight := inflight a @ [(GetAgentTools (Agent_id ag), Page)]\<rparr>))"
  proof
    assume h: "activeStep (page a) = str ''review'' \<and> \<not> loading (page a)"
    then have "agent (page a) \<noteq> None"
      using inv_agent[OF inv_reachable[OF assms]] by simp
    then obtain ag where ag: "agent (page a) = Some ag" by auto
    have "fire BackFromReview a =
                 Some (a\<lparr>page := (page a)\<lparr>activeStep := str ''policies'', error := JStr []\<rparr>,
                         form := initial_review, mounts := Suc (mounts a),
                         inflight := inflight a @ [(GetAgentTools (Agent_id ag), Page)]\<rparr>)"
      using v h ag
      by (simp add: fire_back render_throws_def onBack_review_def commit_def useEffect_def
          fetchSelectedTools_def)
    with ag show "\<exists>ag. agent (page a) = Some ag \<and>
               fire BackFromReview a =
                 Some (a\<lparr>page := (page a)\<lparr>activeStep := str ''policies'', error := JStr []\<rparr>,
                         form := initial_review, mounts := Suc (mounts a),
                         inflight := inflight a @ [(GetAgentTools (Agent_id ag), Page)]\<rparr>)"
      by blast
  qed
  have c: "onBack_tools w = w\<lparr>activeStep := str ''metadata''\<rparr>"
    "onBack_policies w = w\<lparr>activeStep := str ''tools''\<rparr>"
    "onBack_review w = w\<lparr>activeStep := str ''policies''\<rparr>"
    by (simp_all add: onBack_tools_def onBack_policies_def onBack_review_def)
  from t p r c previous_step_simps(2,3,4) show ?thesis by (intro conjI)
qed

text \<open>The theorem on the tools step and on the review step with a question typed.\<close>

theorem back_press_witness:
  "run to_tools initial_app = Some at_tools \<and>
   (activeStep (page at_tools), loading (page at_tools)) = (str ''tools'', False) \<and>
   fire BackFromTools at_tools =
     Some (at_tools\<lparr>page := (page at_tools)\<lparr>activeStep := str ''metadata''\<rparr>\<rparr>) \<and>
   run (to_review @ [SetQuestion (str ''q'')]) initial_app = Some at_question \<and>
   (activeStep (page at_question), loading (page at_question), agent (page at_question)) =
     (str ''review'', False, Some demo_agent) \<and>
   fire BackFromReview at_question =
     Some (at_question\<lparr>page := (page at_question)\<lparr>activeStep := str ''policies'', error := JStr []\<rparr>,
             form := initial_review, mounts := Suc (mounts at_question),
             inflight := inflight at_question @ [(GetAgentTools (Agent_id demo_agent), Page)]\<rparr>)"
proof -
  have e: "map_option (\<lambda>a. (activeStep (page a), loading (page a))) (run to_tools initial_app) =
           Some (str ''tools'', False)"
    by code_simp
  note r = the_run(1)[OF e, folded at_tools_def] and f = the_run(2)[OF e, folded at_tools_def]
  have e2: "map_option (\<lambda>a. (activeStep (page a), loading (page a), agent (page a)))
              (run (to_review @ [SetQuestion (str ''q'')]) initial_app) =
            Some (str ''review'', False, Some demo_agent)"
    by code_simp
  note r2 = the_run(1)[OF e2, folded at_question_def]
    and f2 = the_run(2)[OF e2, folded at_question_def]
  have A: "fire BackFromTools at_tools =
     Some (at_tools\<lparr>page := (page at_tools)\<lparr>activeStep := str ''metadata''\<rparr>\<rparr>)"
    using back_press[OF r] f by simp
  have B: "fire BackFromReview at_question =
     Some (at_question\<lparr>page := (page at_question)\<lparr>activeStep := str ''policies'', error := JStr []\<rparr>,
             form := initial_review, mounts := Suc (mounts at_question),
             inflight := inflight at_question @ [(GetAgentTools (Agent_id demo_agent), Page)]\<rparr>)"
    using back_press[OF r2] f2 by simp
  from r f A r2 f2 B show ?thesis by (intro conjI)
qed

text \<open>
  On the policies step the frequency message is shown; Back is pressed and the message
  is gone, \<open>fetchTools\<close> having been started. On the review step a question is typed; Back
  is pressed and the question is gone.
\<close>

theorem back_press_counterexample:
  "map_option (\<lambda>a. error (page a))
     (run (to_policies @ [SetFrequencyLimit (Some 0), SubmitPolicy]) initial_app) =
     Some (JStr (str ''Frequency limit must be positive when provided.'')) \<and>
   map_option (\<lambda>a. (error (page a), last (map fst (inflight a))))
     (run (to_policies @ [SetFrequencyLimit (Some 0), SubmitPolicy, BackFromPolicies])
        initial_app) =
     Some (JStr [], GetTools) \<and>
   map_option (\<lambda>a. question (form a))
     (run (to_review @ [SetQuestion (str ''q'')]) initial_app) = Some (str ''q'') \<and>
   map_option (\<lambda>a. question (form a))
     (run (to_review @ [SetQuestion (str ''q''), BackFromReview]) initial_app) = Some []"
  by code_simp

text \<open>
  C9: with no agent, \<open>handleSaveTools\<close> and \<open>handleSavePolicy\<close> issue no call and change
  nothing but \<open>error\<close>, which they set to the message that the agent is not created.
\<close>

theorem no_agent_no_call:
  assumes "agent w = None"
  shows "handleSaveTools w =
           (w\<lparr>error := JStr (str ''Agent not created. Please go back to Metadata step and create the agent first.'')\<rparr>,
            None) \<and>
         handleSavePolicy w =
           (w\<lparr>error := JStr (str ''Agent not created. Please go back to Metadata step and create the agent first.'')\<rparr>,
            None)"
  using assms by (simp add: handleSaveTools_def handleSavePolicy_def)

theorem no_agent_no_call_witness:
  "agent initial_wizard = None \<and>
   handleSaveTools initial_wizard =
     (initial_wizard\<lparr>error := JStr (str ''Agent not created. Please go back to Metadata step and create the agent first.'')\<rparr>,
      None) \<and>
   handleSavePolicy initial_wizard =
     (initial_wizard\<lparr>error := JStr (str ''Agent not created. Please go back to Metadata step and create the agent first.'')\<rparr>,
      None)"
proof -
  have h: "agent initial_wizard = None" by (simp add: initial_wizard_def)
  show ?thesis using h no_agent_no_call[OF h] by simp
qed

text \<open>
  C10: in every state the page can reach, Ask can be pressed exactly when the review step
  is shown with a definition whose agent id is truthy, the trimmed question is not empty
  and \<open>qaLoading\<close> is not set; \<open>qaLoading\<close> is set exactly while a question of the mounted
  ReviewStep is in flight, so then none of its questions is. \<open>onAsk\<close> with a null agent id
  returns the cells unchanged and issues no call.
\<close>

theorem ask_guard:
  assumes "run es initial_app = Some a"
  shows "(fire Ask a \<noteq> None \<longleftrightarrow>
            activeStep (page a) = str ''review'' \<and>
            truthy (agentId (agentDefinition (page a))) \<and>
            trim (question (form a)) \<noteq> [] \<and> \<not> qaLoading (form a)) \<and>
         (truthy (agentId (agentDefinition (page a))) \<longrightarrow> agentDefinition (page a) \<noteq> None) \<and>
         (qaLoading (form a) \<longleftrightarrow> own_asks_inflight a = 1) \<and>
         (fire Ask a \<noteq> None \<longrightarrow> own_asks_inflight a = 0) \<and>
         (agentId d = None \<longrightarrow> onAsk d r = (r, None))"
proof -
  have i: "own_asks_inflight a = (if qaLoading (form a) then 1 else 0)"
    using inv_reachable[OF assms] by (simp add: page_invariant_def)
  have t: "truthy (agentId (agentDefinition (page a))) \<longrightarrow> agentDefinition (page a) \<noteq> None"
    by (auto simp: truthy_def agentId_def split: option.splits)
  have f: "fire Ask a \<noteq> None \<longleftrightarrow>
            activeStep (page a) = str ''review'' \<and>
            truthy (agentId (agentDefinition (page a))) \<and>
            trim (question (form a)) \<noteq> [] \<and> \<not> qaLoading (form a)"
    using t by (auto simp: canAsk_def split: prod.splits option.splits)
  have o: "agentId d = None \<longrightarrow> onAsk d r = (r, None)"
    by (simp add: onAsk_def truthy_def)
  show ?thesis using i t f o by (simp del: fire_simps)
qed

theorem ask_guard_witness:
  "run (to_review @ [SetQuestion (str ''q'')]) initial_app = Some at_question \<and>
   (activeStep (page at_question), truthy (agentId (agentDefinition (page at_question))),
    trim (question (form at_question)), qaLoading (form at_question)) =
     (str ''review'', True, str ''q'', False) \<and>
   fire Ask at_question \<noteq> None \<and> own_asks_inflight at_question = 0 \<and>
   agentId None = None \<and> onAsk None initial_review = (initial_review, None)"
proof -
  have e: "map_option (\<lambda>a. (activeStep (page a), truthy (agentId (agentDefinition (page a))),
                  trim (question (form a)), qaLoading (form a)))
             (run (to_review @ [SetQuestion (str ''q'')]) initial_app) =
           Some (str ''review'', True, str ''q'', False)"
    by code_simp
  note r = the_run(1)[OF e, folded at_question_def]
    and f = the_run(2)[OF e, folded at_question_def]
  have n: "agentId None = None" by (simp add: agentId_def)
  from ask_guard[OF r, of None initial_review] f n
  have "fire Ask at_question \<noteq> None" "own_asks_inflight at_question = 0"
    "onAsk None initial_review = (initial_review, None)"
    by (simp_all del: fire_simps)
  with r f n show ?thesis by (intro conjI)
qed

text \<open>
  After the run above the policy call settles and the review step is mounted anew with
  the definition loaded earlier: its \<open>qaLoading\<close> is not set and Ask can be pressed, while
  the question of the previous instance is still in flight.
\<close>

theorem ask_guard_counterexample:
  "map_option (\<lambda>a. (asks_inflight a, qaLoading (form a), Option.is_none (fire Ask a)))
     (run to_second_question initial_app) = Some (1, False, False)"
  by code_simp

end
